theory Spec2Isabelle
  imports Main "HOL-Library.Word" "HOL-Library.Monad_Syntax"
begin

unbundle bit_operations_syntax

section \<open>The matching engine of \<^verbatim>\<open>hft_engine.cpp\<close>\<close>

text \<open>
  The repository holds two variants of the engine. \<^verbatim>\<open>hft_engine.cpp\<close> is the
  self-contained one with the two-level bitset index (4096 ticks); the headers
  \<^verbatim>\<open>Types.h\<close>, \<^verbatim>\<open>OrderBook.h\<close> and \<^verbatim>\<open>MatchingEngine.h\<close> hold the variant with cached
  best prices and a linear rescan (10000 ticks). This section embeds the first, the next
  section the second.

  Conventions of the embedding.
  \<^item> An \<^verbatim>\<open>Order*\<close> is \<open>None\<close> (\<^verbatim>\<open>nullptr\<close>) or \<open>Some i\<close>, the address of slot \<open>i\<close> of the
    pool's storage; the storage is a function from slot numbers to records, so that two
    pointers to one slot alias as they do in the program.
  \<^item> \<^verbatim>\<open>uint32_t\<close> and \<^verbatim>\<open>uint64_t\<close> are \<open>32 word\<close> and \<open>64 word\<close>.
  \<^item> A fixed-size array is a function on \<open>nat\<close>. An access checks its index against the
    array's extent wherever the index comes from an order or from the free stack; the
    ticks that the bit scans return are below 4096 by construction.
  \<^item> A result of type \<open>'a option\<close> is \<open>None\<close> where the C++ program has no defined result:
    an index outside an array, a dereferenced null pointer, a bit scan of zero, or a loop
    that never exits.
  \<^item> The exception of \<^verbatim>\<open>OrderPool::allocate\<close> is a value \<open>Inl (ArenaExhausted, s)\<close>, where
    \<open>s\<close> is the object as the \<^verbatim>\<open>throw\<close> leaves it.
  \<^item> Isabelle has no names that end in an underscore, so the members \<^verbatim>\<open>free_idx_\<close>,
    \<^verbatim>\<open>book_\<close>, ... lose theirs; \<^verbatim>\<open>OrderPool::pool_\<close> is \<open>pool_arr\<close> (the engine has a member
    \<^verbatim>\<open>pool_\<close> of its own) and \<^verbatim>\<open>Order::id\<close> is \<open>id_fld\<close>.
\<close>

subsection \<open>Types and memory management\<close>

definition MAX_ORDERS :: nat where
  "MAX_ORDERS = 1000000"

definition MAX_PRICE_TICKS :: "32 word" where
  "MAX_PRICE_TICKS = 4096"

record Order =
  id_fld :: "64 word"
  price :: "32 word"
  qty :: "32 word"
  is_buy :: bool
  prev :: "nat option"
  "next" :: "nat option"

record OrderPool =
  pool_arr :: "nat \<Rightarrow> Order"
  free_list :: "nat \<Rightarrow> nat"
  free_idx :: nat

datatype error = ArenaExhausted

text \<open>The constructor of \<^verbatim>\<open>OrderPool\<close>; the storage starts zeroed, as
  \<^verbatim>\<open>std::make_unique<MatchingEngine>()\<close> leaves it.\<close>

definition zero_Order :: Order where
  "zero_Order = \<lparr>id_fld = 0, price = 0, qty = 0, is_buy = False, prev = None, next = None\<rparr>"

definition new_OrderPool :: OrderPool where
  "new_OrderPool =
     \<lparr>pool_arr = (\<lambda>_. zero_Order),
      free_list = (\<lambda>i. MAX_ORDERS - 1 - i),
      free_idx = MAX_ORDERS\<rparr>"

definition allocate ::
  "OrderPool \<Rightarrow> 64 word \<Rightarrow> 32 word \<Rightarrow> 32 word \<Rightarrow> bool
     \<Rightarrow> (error \<times> OrderPool + OrderPool \<times> nat) option" where
  "allocate p i pr q b =
     (if free_idx p = 0 then Some (Inl (ArenaExhausted, p))
      else
        let fi = free_idx p - 1 in
        if MAX_ORDERS \<le> fi then None
        else
          let idx = free_list p fi in
          if MAX_ORDERS \<le> idx then None
          else
            Some (Inr (p\<lparr>pool_arr := (pool_arr p)(idx :=
                            \<lparr>id_fld = i, price = pr, qty = q, is_buy = b,
                             prev = None, next = None\<rparr>),
                          free_idx := fi\<rparr>, idx)))"

definition deallocate :: "OrderPool \<Rightarrow> nat \<Rightarrow> OrderPool option" where
  "deallocate p idx =
     (if MAX_ORDERS \<le> free_idx p then None
      else Some (p\<lparr>free_list := (free_list p)(free_idx p := idx),
                   free_idx := free_idx p + 1\<rparr>))"

subsection \<open>The price tracker\<close>

record FastPriceTracker =
  summary_word :: "64 word"
  data_words :: "nat \<Rightarrow> 64 word"

definition new_FastPriceTracker :: FastPriceTracker where
  "new_FastPriceTracker = \<lparr>summary_word = 0, data_words = (\<lambda>_. 0)\<rparr>"

text \<open>\<^verbatim>\<open>__builtin_ctzll\<close> and \<^verbatim>\<open>__builtin_clzll\<close>: the number of zero bits below the
  lowest, and above the highest, set bit of a 64-bit value; no result on zero.\<close>

definition ctzll :: "64 word \<Rightarrow> nat option" where
  "ctzll w = find (bit w) [0..<64]"

definition clzll :: "64 word \<Rightarrow> nat option" where
  "clzll w = map_option (\<lambda>i. 63 - i) (find (bit w) (rev [0..<64]))"

definition setPriceLevel :: "FastPriceTracker \<Rightarrow> 32 word \<Rightarrow> FastPriceTracker option" where
  "setPriceLevel t pr =
     (let word_idx = unat (pr div 64); bit_idx = unat (pr mod 64) in
      if 64 \<le> word_idx then None
      else Some (t\<lparr>data_words := (data_words t)(word_idx :=
                       data_words t word_idx OR push_bit bit_idx 1),
                   summary_word := summary_word t OR push_bit word_idx 1\<rparr>))"

definition clearPriceLevel :: "FastPriceTracker \<Rightarrow> 32 word \<Rightarrow> FastPriceTracker option" where
  "clearPriceLevel t pr =
     (let word_idx = unat (pr div 64); bit_idx = unat (pr mod 64) in
      if 64 \<le> word_idx then None
      else
        let dw = data_words t word_idx AND NOT (push_bit bit_idx 1);
            t1 = t\<lparr>data_words := (data_words t)(word_idx := dw)\<rparr>
        in if dw = 0
           then Some (t1\<lparr>summary_word := summary_word t1 AND NOT (push_bit word_idx 1)\<rparr>)
           else Some t1)"

definition getBestAsk :: "FastPriceTracker \<Rightarrow> 32 word option" where
  "getBestAsk t =
     (if summary_word t = 0 then Some MAX_PRICE_TICKS
      else do {
        lowest_word \<leftarrow> ctzll (summary_word t);
        lowest_bit \<leftarrow> ctzll (data_words t lowest_word);
        Some (word_of_nat lowest_word * 64 + word_of_nat lowest_bit)
      })"

definition getBestBid :: "FastPriceTracker \<Rightarrow> 32 word option" where
  "getBestBid t =
     (if summary_word t = 0 then Some 0
      else do {
        lz \<leftarrow> clzll (summary_word t);
        let highest_word = 63 - lz;
        lzb \<leftarrow> clzll (data_words t highest_word);
        let highest_bit = 63 - lzb;
        Some (word_of_nat highest_word * 64 + word_of_nat highest_bit)
      })"

subsection \<open>Intrusive list and order book\<close>

record PriceLevel =
  head :: "nat option"
  tail :: "nat option"

definition isEmpty :: "PriceLevel \<Rightarrow> bool" where
  "isEmpty l = (head l = None)"

text \<open>The list operations write to the orders they link, so they take and return the
  pool's storage beside the level.\<close>

definition push_back ::
  "(nat \<Rightarrow> Order) \<Rightarrow> PriceLevel \<Rightarrow> nat \<Rightarrow> ((nat \<Rightarrow> Order) \<times> PriceLevel) option" where
  "push_back m l ord =
     (case head l of
        None \<Rightarrow> Some (m, l\<lparr>head := Some ord, tail := Some ord\<rparr>)
      | Some _ \<Rightarrow>
          (case tail l of
             None \<Rightarrow> None
           | Some t \<Rightarrow>
               let m1 = m(t := (m t)\<lparr>next := Some ord\<rparr>);
                   m2 = m1(ord := (m1 ord)\<lparr>prev := Some t\<rparr>)
               in Some (m2, l\<lparr>tail := Some ord\<rparr>)))"

definition pop_front ::
  "(nat \<Rightarrow> Order) \<Rightarrow> PriceLevel \<Rightarrow> (nat \<Rightarrow> Order) \<times> PriceLevel \<times> nat option" where
  "pop_front m l =
     (case head l of
        None \<Rightarrow> (m, l, None)
      | Some ord \<Rightarrow>
          (case next (m ord) of
             Some h \<Rightarrow> (m(h := (m h)\<lparr>prev := None\<rparr>), l\<lparr>head := Some h\<rparr>, Some ord)
           | None \<Rightarrow> (m, l\<lparr>head := None, tail := None\<rparr>, Some ord)))"

record OrderBook =
  bids :: "nat \<Rightarrow> PriceLevel"
  asks :: "nat \<Rightarrow> PriceLevel"
  bid_tracker :: FastPriceTracker
  ask_tracker :: FastPriceTracker

definition new_PriceLevel :: PriceLevel where
  "new_PriceLevel = \<lparr>head = None, tail = None\<rparr>"

definition new_OrderBook :: OrderBook where
  "new_OrderBook =
     \<lparr>bids = (\<lambda>_. new_PriceLevel), asks = (\<lambda>_. new_PriceLevel),
      bid_tracker = new_FastPriceTracker, ask_tracker = new_FastPriceTracker\<rparr>"

definition addOrder ::
  "OrderBook \<Rightarrow> (nat \<Rightarrow> Order) \<Rightarrow> nat \<Rightarrow> (OrderBook \<times> (nat \<Rightarrow> Order)) option" where
  "addOrder bk m ord =
     (let pr = price (m ord) in
      if MAX_PRICE_TICKS \<le> pr then None
      else if is_buy (m ord) then do {
        tr \<leftarrow> (if isEmpty (bids bk (unat pr)) then setPriceLevel (bid_tracker bk) pr
               else Some (bid_tracker bk));
        (m', l') \<leftarrow> push_back m (bids bk (unat pr)) ord;
        Some (bk\<lparr>bids := (bids bk)(unat pr := l'), bid_tracker := tr\<rparr>, m')
      } else do {
        tr \<leftarrow> (if isEmpty (asks bk (unat pr)) then setPriceLevel (ask_tracker bk) pr
               else Some (ask_tracker bk));
        (m', l') \<leftarrow> push_back m (asks bk (unat pr)) ord;
        Some (bk\<lparr>asks := (asks bk)(unat pr := l'), ask_tracker := tr\<rparr>, m')
      })"

subsection \<open>The matching engine\<close>

text \<open>The program counts its fills in \<^verbatim>\<open>trades_executed_\<close> and reports nothing else.
  The embedding adds an observer, \<open>trade_log\<close>: where \<^verbatim>\<open>executeTrade\<close> increments the
  counter, the fill is appended to the log with the two order ids, the slot of the
  resting order, the fill price and \<^verbatim>\<open>traded_qty\<close>. No function of the engine reads the
  log.\<close>

record Trade =
  inbound_id :: "64 word"
  resting_id :: "64 word"
  resting_slot :: nat
  trade_price :: "32 word"
  trade_qty :: "32 word"

record MatchingEngine =
  book :: OrderBook
  pool :: OrderPool
  trades_executed :: "64 word"
  trade_log :: "Trade list"

definition new_MatchingEngine :: MatchingEngine where
  "new_MatchingEngine =
     \<lparr>book = new_OrderBook, pool = new_OrderPool, trades_executed = 0, trade_log = []\<rparr>"

definition getTradesExecuted :: "MatchingEngine \<Rightarrow> 64 word" where
  "getTradesExecuted s = trades_executed s"

text \<open>\<^verbatim>\<open>executeTrade\<close> receives the level by reference; the reference is the side and the
  index of the level in that side's array (\<open>True\<close> for \<^verbatim>\<open>bids_\<close>).\<close>

definition level_at :: "OrderBook \<Rightarrow> bool \<times> nat \<Rightarrow> PriceLevel" where
  "level_at bk r = (if fst r then bids bk (snd r) else asks bk (snd r))"

definition level_upd :: "OrderBook \<Rightarrow> bool \<times> nat \<Rightarrow> PriceLevel \<Rightarrow> OrderBook" where
  "level_upd bk r l =
     (if fst r then bk\<lparr>bids := (bids bk)(snd r := l)\<rparr>
      else bk\<lparr>asks := (asks bk)(snd r := l)\<rparr>)"

definition executeTrade ::
  "MatchingEngine \<Rightarrow> nat \<Rightarrow> nat option \<Rightarrow> bool \<times> nat \<Rightarrow> 32 word \<Rightarrow> bool
     \<Rightarrow> MatchingEngine option" where
  "executeTrade s inbound resting lref fill_price is_bid_book =
     (case resting of
        None \<Rightarrow> None
      | Some r \<Rightarrow>
          let m = pool_arr (pool s);
              traded_qty = min (qty (m inbound)) (qty (m r));
              m1 = m(inbound := (m inbound)\<lparr>qty := qty (m inbound) - traded_qty\<rparr>);
              m2 = m1(r := (m1 r)\<lparr>qty := qty (m1 r) - traded_qty\<rparr>);
              s1 = s\<lparr>pool := (pool s)\<lparr>pool_arr := m2\<rparr>,
                     trades_executed := trades_executed s + 1,
                     trade_log := trade_log s @
                       [\<lparr>inbound_id = id_fld (m inbound), resting_id = id_fld (m r),
                         resting_slot = r, trade_price = fill_price,
                         trade_qty = traded_qty\<rparr>]\<rparr>
          in
          if qty (m2 r) = 0 then
            (case pop_front m2 (level_at (book s1) lref) of (m3, l', _) \<Rightarrow> do {
               let bk1 = level_upd (book s1) lref l';
               bk2 \<leftarrow> (if isEmpty l' then
                         (if is_bid_book
                          then map_option (\<lambda>t. bk1\<lparr>bid_tracker := t\<rparr>)
                                 (clearPriceLevel (bid_tracker bk1) fill_price)
                          else map_option (\<lambda>t. bk1\<lparr>ask_tracker := t\<rparr>)
                                 (clearPriceLevel (ask_tracker bk1) fill_price))
                       else Some bk1);
               p' \<leftarrow> deallocate ((pool s1)\<lparr>pool_arr := m3\<rparr>) r;
               Some (s1\<lparr>book := bk2, pool := p'\<rparr>)
             })
          else Some s1)"

partial_function (option) matchBuyOrder :: "MatchingEngine \<Rightarrow> nat \<Rightarrow> MatchingEngine option" where
  "matchBuyOrder s inbound =
     (if 0 < qty (pool_arr (pool s) inbound) then
        (case getBestAsk (ask_tracker (book s)) of
           None \<Rightarrow> None
         | Some best_ask \<Rightarrow>
             if price (pool_arr (pool s) inbound) < best_ask \<or> best_ask = MAX_PRICE_TICKS
             then Some s
             else
               (case executeTrade s inbound (head (asks (book s) (unat best_ask)))
                       (False, unat best_ask) best_ask False of
                  None \<Rightarrow> None
                | Some s' \<Rightarrow> matchBuyOrder s' inbound))
      else Some s)"

partial_function (option) matchSellOrder :: "MatchingEngine \<Rightarrow> nat \<Rightarrow> MatchingEngine option" where
  "matchSellOrder s inbound =
     (if 0 < qty (pool_arr (pool s) inbound) then
        (case getBestBid (bid_tracker (book s)) of
           None \<Rightarrow> None
         | Some best_bid \<Rightarrow>
             if best_bid < price (pool_arr (pool s) inbound) \<or> best_bid = 0
             then Some s
             else
               (case executeTrade s inbound (head (bids (book s) (unat best_bid)))
                       (True, unat best_bid) best_bid True of
                  None \<Rightarrow> None
                | Some s' \<Rightarrow> matchSellOrder s' inbound))
      else Some s)"

definition processNewOrder ::
  "MatchingEngine \<Rightarrow> 64 word \<Rightarrow> 32 word \<Rightarrow> 32 word \<Rightarrow> bool
     \<Rightarrow> (error \<times> MatchingEngine + MatchingEngine) option" where
  "processNewOrder s i pr q b =
     (case allocate (pool s) i pr q b of
        None \<Rightarrow> None
      | Some (Inl (e, p)) \<Rightarrow> Some (Inl (e, s\<lparr>pool := p\<rparr>))
      | Some (Inr (p, inbound)) \<Rightarrow>
          (case (if b then matchBuyOrder (s\<lparr>pool := p\<rparr>) inbound
                 else matchSellOrder (s\<lparr>pool := p\<rparr>) inbound) of
             None \<Rightarrow> None
           | Some s1 \<Rightarrow>
               if 0 < qty (pool_arr (pool s1) inbound) then
                 (case addOrder (book s1) (pool_arr (pool s1)) inbound of
                    None \<Rightarrow> None
                  | Some (bk, m) \<Rightarrow>
                      Some (Inr (s1\<lparr>book := bk, pool := (pool s1)\<lparr>pool_arr := m\<rparr>\<rparr>)))
               else
                 (case deallocate (pool s1) inbound of
                    None \<Rightarrow> None
                  | Some p' \<Rightarrow> Some (Inr (s1\<lparr>pool := p'\<rparr>)))))"

text \<open>The driver of \<^verbatim>\<open>main\<close>: the orders are submitted one after the other, and
  an exception ends the run.\<close>

type_synonym order_req = "64 word \<times> 32 word \<times> 32 word \<times> bool"

fun run ::
  "MatchingEngine \<Rightarrow> order_req list \<Rightarrow> (error \<times> MatchingEngine + MatchingEngine) option" where
  "run s [] = Some (Inr s)"
| "run s ((i, pr, q, b) # os) =
     (case processNewOrder s i pr q b of
        None \<Rightarrow> None
      | Some (Inl e) \<Rightarrow> Some (Inl e)
      | Some (Inr s') \<Rightarrow> run s' os)"

section \<open>The matching engine of the headers\<close>

text \<open>
  \<^verbatim>\<open>Types.h\<close> declares \<^verbatim>\<open>Order\<close> and \<^verbatim>\<open>OrderPool\<close> as \<^verbatim>\<open>hft_engine.cpp\<close> does, and the level has
  the same two members, so the records and \<open>allocate\<close>, \<open>deallocate\<close> are shared. What
  differs carries the suffix \<open>_h\<close>: 10000 ticks, \<^verbatim>\<open>PriceLevel::addOrder\<close> (here
  \<open>addOrder_level\<close>), a \<^verbatim>\<open>pop_front\<close> that returns nothing, a book that caches the best
  prices, and the engine on top of it.
\<close>

definition MAX_PRICE_TICKS_h :: "32 word" where
  "MAX_PRICE_TICKS_h = 10000"

definition addOrder_level ::
  "(nat \<Rightarrow> Order) \<Rightarrow> PriceLevel \<Rightarrow> nat \<Rightarrow> (nat \<Rightarrow> Order) \<times> PriceLevel" where
  "addOrder_level m l ord =
     (let m1 = m(ord := (m ord)\<lparr>prev := tail l\<rparr>);
          m2 = m1(ord := (m1 ord)\<lparr>next := None\<rparr>)
      in case tail l of
           Some t \<Rightarrow> (m2(t := (m2 t)\<lparr>next := Some ord\<rparr>), l\<lparr>tail := Some ord\<rparr>)
         | None \<Rightarrow> (m2, l\<lparr>head := Some ord, tail := Some ord\<rparr>))"

definition pop_front_h :: "(nat \<Rightarrow> Order) \<Rightarrow> PriceLevel \<Rightarrow> (nat \<Rightarrow> Order) \<times> PriceLevel" where
  "pop_front_h m l =
     (case head l of
        None \<Rightarrow> (m, l)
      | Some old_head \<Rightarrow>
          let (m1, l1) =
                (case next (m old_head) of
                   Some h \<Rightarrow> (m(h := (m h)\<lparr>prev := None\<rparr>), l\<lparr>head := Some h\<rparr>)
                 | None \<Rightarrow> (m, l\<lparr>head := None, tail := None\<rparr>));
              m2 = m1(old_head := (m1 old_head)\<lparr>next := None\<rparr>);
              m3 = m2(old_head := (m2 old_head)\<lparr>prev := None\<rparr>)
          in (m3, l1))"

record OrderBook_h =
  asks_h :: "nat \<Rightarrow> PriceLevel"
  bids_h :: "nat \<Rightarrow> PriceLevel"
  best_ask :: "32 word"
  best_bid :: "32 word"

definition new_OrderBook_h :: OrderBook_h where
  "new_OrderBook_h =
     \<lparr>asks_h = (\<lambda>_. new_PriceLevel), bids_h = (\<lambda>_. new_PriceLevel),
      best_ask = MAX_PRICE_TICKS_h, best_bid = 0\<rparr>"

definition addOrder_h ::
  "OrderBook_h \<Rightarrow> (nat \<Rightarrow> Order) \<Rightarrow> nat \<Rightarrow> (OrderBook_h \<times> (nat \<Rightarrow> Order)) option" where
  "addOrder_h bk m ord =
     (let pr = price (m ord) in
      if MAX_PRICE_TICKS_h \<le> pr then None
      else if is_buy (m ord) then
        (case addOrder_level m (bids_h bk (unat pr)) ord of (m', l') \<Rightarrow>
           let bk1 = bk\<lparr>bids_h := (bids_h bk)(unat pr := l')\<rparr>
           in Some (if best_bid bk1 < pr then bk1\<lparr>best_bid := pr\<rparr> else bk1, m'))
      else
        (case addOrder_level m (asks_h bk (unat pr)) ord of (m', l') \<Rightarrow>
           let bk1 = bk\<lparr>asks_h := (asks_h bk)(unat pr := l')\<rparr>
           in Some (if pr < best_ask bk1 then bk1\<lparr>best_ask := pr\<rparr> else bk1, m')))"

function scan_asks :: "(nat \<Rightarrow> PriceLevel) \<Rightarrow> nat \<Rightarrow> 32 word" where
  "scan_asks ls i =
     (if i < unat MAX_PRICE_TICKS_h then
        (if head (ls i) \<noteq> None then word_of_nat i else scan_asks ls (i + 1))
      else MAX_PRICE_TICKS_h)"
  by pat_completeness auto
termination
  by (relation "measure (\<lambda>(ls, i). unat MAX_PRICE_TICKS_h - i)") auto

definition updateBestAsk :: "OrderBook_h \<Rightarrow> OrderBook_h" where
  "updateBestAsk bk = bk\<lparr>best_ask := scan_asks (asks_h bk) 0\<rparr>"

fun scan_bids :: "(nat \<Rightarrow> PriceLevel) \<Rightarrow> nat \<Rightarrow> 32 word" where
  "scan_bids ls 0 = 0"
| "scan_bids ls (Suc j) = (if head (ls j) \<noteq> None then word_of_nat j else scan_bids ls j)"

definition updateBestBid :: "OrderBook_h \<Rightarrow> OrderBook_h" where
  "updateBestBid bk = bk\<lparr>best_bid := scan_bids (bids_h bk) (unat MAX_PRICE_TICKS_h)\<rparr>"

record MatchingEngine_h =
  book_h :: OrderBook_h
  pool_h :: OrderPool
  trades_executed_h :: "64 word"

definition new_MatchingEngine_h :: MatchingEngine_h where
  "new_MatchingEngine_h =
     \<lparr>book_h = new_OrderBook_h, pool_h = new_OrderPool, trades_executed_h = 0\<rparr>"

definition level_at_h :: "OrderBook_h \<Rightarrow> bool \<times> nat \<Rightarrow> PriceLevel" where
  "level_at_h bk r = (if fst r then bids_h bk (snd r) else asks_h bk (snd r))"

definition level_upd_h :: "OrderBook_h \<Rightarrow> bool \<times> nat \<Rightarrow> PriceLevel \<Rightarrow> OrderBook_h" where
  "level_upd_h bk r l =
     (if fst r then bk\<lparr>bids_h := (bids_h bk)(snd r := l)\<rparr>
      else bk\<lparr>asks_h := (asks_h bk)(snd r := l)\<rparr>)"

definition executeTrade_h ::
  "MatchingEngine_h \<Rightarrow> nat \<Rightarrow> nat \<Rightarrow> bool \<times> nat \<Rightarrow> 32 word \<Rightarrow> MatchingEngine_h option" where
  "executeTrade_h s inbound r lref fill_price =
     (let m = pool_arr (pool_h s);
          traded_qty = min (qty (m inbound)) (qty (m r));
          m1 = m(inbound := (m inbound)\<lparr>qty := qty (m inbound) - traded_qty\<rparr>);
          m2 = m1(r := (m1 r)\<lparr>qty := qty (m1 r) - traded_qty\<rparr>);
          s1 = s\<lparr>pool_h := (pool_h s)\<lparr>pool_arr := m2\<rparr>,
                 trades_executed_h := trades_executed_h s + 1\<rparr>
      in
      if qty (m2 r) = 0 then
        (case pop_front_h m2 (level_at_h (book_h s1) lref) of (m3, l') \<Rightarrow>
           let bk1 = level_upd_h (book_h s1) lref l';
               bk2 = (if head l' = None then
                        (if fill_price = best_ask bk1 then updateBestAsk bk1
                         else if fill_price = best_bid bk1 then updateBestBid bk1
                         else bk1)
                      else bk1)
           in map_option (\<lambda>p'. s1\<lparr>book_h := bk2, pool_h := p'\<rparr>)
                (deallocate ((pool_h s1)\<lparr>pool_arr := m3\<rparr>) r))
      else Some s1)"

text \<open>One pass through the body of each matching loop, and the loops.\<close>

definition matchBuyOrder_cond :: "MatchingEngine_h \<Rightarrow> nat \<Rightarrow> bool" where
  "matchBuyOrder_cond s inbound =
     (0 < qty (pool_arr (pool_h s) inbound) \<and>
      best_ask (book_h s) \<le> price (pool_arr (pool_h s) inbound))"

definition matchBuyOrder_body :: "MatchingEngine_h \<Rightarrow> nat \<Rightarrow> MatchingEngine_h option" where
  "matchBuyOrder_body s inbound =
     (if MAX_PRICE_TICKS_h \<le> best_ask (book_h s) then None
      else
        (case head (asks_h (book_h s) (unat (best_ask (book_h s)))) of
           None \<Rightarrow> Some (s\<lparr>book_h := updateBestAsk (book_h s)\<rparr>)
         | Some resting \<Rightarrow>
             executeTrade_h s inbound resting (False, unat (best_ask (book_h s)))
               (best_ask (book_h s))))"

partial_function (option) matchBuyOrder_h ::
  "MatchingEngine_h \<Rightarrow> nat \<Rightarrow> MatchingEngine_h option" where
  "matchBuyOrder_h s inbound =
     (if matchBuyOrder_cond s inbound then
        (case matchBuyOrder_body s inbound of
           None \<Rightarrow> None
         | Some s' \<Rightarrow> matchBuyOrder_h s' inbound)
      else Some s)"

definition matchSellOrder_cond :: "MatchingEngine_h \<Rightarrow> nat \<Rightarrow> bool" where
  "matchSellOrder_cond s inbound =
     (0 < qty (pool_arr (pool_h s) inbound) \<and>
      price (pool_arr (pool_h s) inbound) \<le> best_bid (book_h s))"

definition matchSellOrder_body :: "MatchingEngine_h \<Rightarrow> nat \<Rightarrow> MatchingEngine_h option" where
  "matchSellOrder_body s inbound =
     (if MAX_PRICE_TICKS_h \<le> best_bid (book_h s) then None
      else
        (case head (bids_h (book_h s) (unat (best_bid (book_h s)))) of
           None \<Rightarrow> Some (s\<lparr>book_h := updateBestBid (book_h s)\<rparr>)
         | Some resting \<Rightarrow>
             executeTrade_h s inbound resting (True, unat (best_bid (book_h s)))
               (best_bid (book_h s))))"

partial_function (option) matchSellOrder_h ::
  "MatchingEngine_h \<Rightarrow> nat \<Rightarrow> MatchingEngine_h option" where
  "matchSellOrder_h s inbound =
     (if matchSellOrder_cond s inbound then
        (case matchSellOrder_body s inbound of
           None \<Rightarrow> None
         | Some s' \<Rightarrow> matchSellOrder_h s' inbound)
      else Some s)"

definition processNewOrder_h ::
  "MatchingEngine_h \<Rightarrow> 64 word \<Rightarrow> 32 word \<Rightarrow> 32 word \<Rightarrow> bool
     \<Rightarrow> (error \<times> MatchingEngine_h + MatchingEngine_h) option" where
  "processNewOrder_h s i pr q b =
     (case allocate (pool_h s) i pr q b of
        None \<Rightarrow> None
      | Some (Inl (e, p)) \<Rightarrow> Some (Inl (e, s\<lparr>pool_h := p\<rparr>))
      | Some (Inr (p, inbound)) \<Rightarrow>
          (case (if b then matchBuyOrder_h (s\<lparr>pool_h := p\<rparr>) inbound
                 else matchSellOrder_h (s\<lparr>pool_h := p\<rparr>) inbound) of
             None \<Rightarrow> None
           | Some s1 \<Rightarrow>
               if 0 < qty (pool_arr (pool_h s1) inbound) then
                 (case addOrder_h (book_h s1) (pool_arr (pool_h s1)) inbound of
                    None \<Rightarrow> None
                  | Some (bk, m) \<Rightarrow>
                      Some (Inr (s1\<lparr>book_h := bk, pool_h := (pool_h s1)\<lparr>pool_arr := m\<rparr>\<rparr>)))
               else
                 (case deallocate (pool_h s1) inbound of
                    None \<Rightarrow> None
                  | Some p' \<Rightarrow> Some (Inr (s1\<lparr>pool_h := p'\<rparr>)))))"

text \<open>The engine in the middle of the first call \<^verbatim>\<open>processNewOrder(1, 0, 5, false)\<close>:
  the order sits in slot 0, the loop of \<^verbatim>\<open>matchSellOrder\<close> is about to start.\<close>

definition sell_at_zero_state :: MatchingEngine_h where
  "sell_at_zero_state =
     new_MatchingEngine_h\<lparr>pool_h := new_OrderPool\<lparr>pool_arr := (\<lambda>_. zero_Order)
        (0 := \<lparr>id_fld = 1, price = 0, qty = 5, is_buy = False, prev = None, next = None\<rparr>),
        free_idx := MAX_ORDERS - 1\<rparr>\<rparr>"

section \<open>Vocabulary of the properties\<close>

text \<open>A tick is active in an index when its bit is set in its data word.\<close>

definition tick_active :: "FastPriceTracker \<Rightarrow> 32 word \<Rightarrow> bool" where
  "tick_active t pr = bit (data_words t (unat (pr div 64))) (unat (pr mod 64))"

text \<open>The states of a price index: what the constructor and the two mutators produce.
  The members are private, so no other state exists in the program.\<close>

inductive index_state :: "FastPriceTracker \<Rightarrow> bool" where
  new: "index_state new_FastPriceTracker"
| set: "index_state t \<Longrightarrow> setPriceLevel t pr = Some t' \<Longrightarrow> index_state t'"
| clear: "index_state t \<Longrightarrow> clearPriceLevel t pr = Some t' \<Longrightarrow> index_state t'"

definition summary_consistent :: "FastPriceTracker \<Rightarrow> bool" where
  "summary_consistent t = (\<forall>w<64. bit (summary_word t) w \<longleftrightarrow> data_words t w \<noteq> 0)"


subsection \<open>Queues as lists of slots\<close>

text \<open>\<open>linked m p xs\<close>: following \<^verbatim>\<open>next\<close> from the pointer \<open>p\<close> visits exactly the slots \<open>xs\<close>
  and ends in \<^verbatim>\<open>nullptr\<close>. \<open>chain\<close> walks the same path with a bound on its length, and
  \<open>queue_of\<close> reads a level's queue with the pool's capacity as the bound (a queue cannot
  hold more orders than the pool has slots). \<open>side_queue s sd t\<close> is the queue at tick \<open>t\<close>
  of the bid side (\<open>sd = True\<close>) or the ask side of the engine \<open>s\<close>, head first.\<close>

fun linked :: "(nat \<Rightarrow> Order) \<Rightarrow> nat option \<Rightarrow> nat list \<Rightarrow> bool" where
  "linked m p [] = (p = None)"
| "linked m p (x # xs) = (p = Some x \<and> linked m (next (m x)) xs)"

fun chain :: "nat \<Rightarrow> (nat \<Rightarrow> Order) \<Rightarrow> nat option \<Rightarrow> nat list" where
  "chain 0 m p = []"
| "chain (Suc n) m None = []"
| "chain (Suc n) m (Some x) = x # chain n m (next (m x))"

definition queue_of :: "(nat \<Rightarrow> Order) \<Rightarrow> PriceLevel \<Rightarrow> nat list" where
  "queue_of m l = chain MAX_ORDERS m (head l)"

definition side_queue :: "MatchingEngine \<Rightarrow> bool \<Rightarrow> nat \<Rightarrow> nat list" where
  "side_queue s sd t = queue_of (pool_arr (pool s)) (level_at (book s) (sd, t))"

definition level_ok :: "(nat \<Rightarrow> Order) \<Rightarrow> PriceLevel \<Rightarrow> nat list \<Rightarrow> bool" where
  "level_ok m l xs \<longleftrightarrow>
     linked m (head l) xs \<and> tail l = (if xs = [] then None else Some (last xs))"

subsection \<open>Quantities and trades\<close>

definition NUM_TICKS :: nat where
  "NUM_TICKS = unat MAX_PRICE_TICKS"

definition level_qty :: "(nat \<Rightarrow> Order) \<Rightarrow> nat list \<Rightarrow> nat" where
  "level_qty m xs = sum_list (map (\<lambda>i. unat (qty (m i))) xs)"

text \<open>The quantity that rests in the book: the remaining quantities of all orders in all
  queues of both sides.\<close>

definition resting_qty :: "MatchingEngine \<Rightarrow> nat" where
  "resting_qty s =
     (\<Sum>t<NUM_TICKS. level_qty (pool_arr (pool s)) (side_queue s True t) +
                     level_qty (pool_arr (pool s)) (side_queue s False t))"

text \<open>The quantity of a list of submitted orders, and the quantity filled by a list of
  trades.\<close>

definition submitted :: "order_req list \<Rightarrow> nat" where
  "submitted os = sum_list (map (\<lambda>(i, pr, qy, b). unat qy) os)"

definition filled :: "Trade list \<Rightarrow> nat" where
  "filled ts = sum_list (map (\<lambda>e. unat (trade_qty e)) ts)"

definition trade_tick :: "Trade \<Rightarrow> nat" where
  "trade_tick e = unat (trade_price e)"

text \<open>The slots of the resting orders that a list of trades fills at tick \<open>t\<close>, in the
  order of the trades.\<close>

definition fills_at :: "nat \<Rightarrow> Trade list \<Rightarrow> nat list" where
  "fills_at t ts = map resting_slot (filter (\<lambda>e. trade_tick e = t) ts)"

text \<open>\<open>fifo_consumed q0 c q1\<close>: the fills \<open>c\<close> take the queue \<open>q0\<close> from its head, one order
  after the other, and leave \<open>q1\<close>. Either every filled order is gone and \<open>q1\<close> is the rest
  of \<open>q0\<close>, or the last filled order was filled in part only and is still the head of
  \<open>q1\<close>.\<close>

definition fifo_consumed :: "nat list \<Rightarrow> nat list \<Rightarrow> nat list \<Rightarrow> bool" where
  "fifo_consumed q0 c q1 \<longleftrightarrow>
     q0 = c @ q1 \<or> (c \<noteq> [] \<and> q1 \<noteq> [] \<and> last c = hd q1 \<and> q0 = butlast c @ q1)"

text \<open>Trades against the bid side (\<open>sd = True\<close>, the inbound order is a sell) come at
  falling ticks, trades against the ask side at rising ticks; and a trade price is within
  the limit of the inbound order.\<close>

definition price_ordered :: "bool \<Rightarrow> Trade list \<Rightarrow> bool" where
  "price_ordered sd ts =
     (if sd then sorted (rev (map trade_tick ts)) else sorted (map trade_tick ts))"

definition within_limit :: "bool \<Rightarrow> 32 word \<Rightarrow> 32 word \<Rightarrow> bool" where
  "within_limit sd limit pr = (if sd then limit \<le> pr else pr \<le> limit)"

definition mk_trade :: "(nat \<Rightarrow> Order) \<Rightarrow> nat \<Rightarrow> nat \<Rightarrow> 32 word \<Rightarrow> 32 word \<Rightarrow> Trade" where
  "mk_trade m ib r fp f =
     \<lparr>inbound_id = id_fld (m ib), resting_id = id_fld (m r), resting_slot = r,
      trade_price = fp, trade_qty = f\<rparr>"

subsection \<open>The invariant of the engine\<close>

text \<open>The invariant relates the engine to an abstract book \<open>q\<close>, which gives for each side
  and tick the list of slots queued there.
  \<^item> \<open>pool_ok\<close>: the free stack holds distinct slots of the pool.
  \<^item> \<open>levels_ok\<close>: every level is the linked list of its abstract queue, with the right
    tail; a tick is active in a side's index exactly when its queue is non-empty; the
    summary word of each index reflects its data words.
  \<^item> \<open>orders_ok\<close>: a queued order is allocated, carries the side and tick of its queue, and
    has a positive quantity.
  \<open>in_flight\<close> is the invariant during a call: the inbound order is allocated, unlinked
  and in no queue.\<close>

definition tracker_of :: "OrderBook \<Rightarrow> bool \<Rightarrow> FastPriceTracker" where
  "tracker_of bk sd = (if sd then bid_tracker bk else ask_tracker bk)"

definition tracker_upd :: "OrderBook \<Rightarrow> bool \<Rightarrow> FastPriceTracker \<Rightarrow> OrderBook" where
  "tracker_upd bk sd tr = (if sd then bk\<lparr>bid_tracker := tr\<rparr> else bk\<lparr>ask_tracker := tr\<rparr>)"

definition tick_bit :: "FastPriceTracker \<Rightarrow> nat \<Rightarrow> bool" where
  "tick_bit tr t = bit (data_words tr (t div 64)) (t mod 64)"

definition free_slots :: "OrderPool \<Rightarrow> nat set" where
  "free_slots p = free_list p ` {..<free_idx p}"

definition pool_ok :: "OrderPool \<Rightarrow> bool" where
  "pool_ok p \<longleftrightarrow>
     free_idx p \<le> MAX_ORDERS \<and> inj_on (free_list p) {..<free_idx p} \<and>
     free_slots p \<subseteq> {..<MAX_ORDERS}"

definition levels_ok :: "OrderBook \<Rightarrow> (nat \<Rightarrow> Order) \<Rightarrow> (bool \<Rightarrow> nat \<Rightarrow> nat list) \<Rightarrow> bool" where
  "levels_ok bk m q \<longleftrightarrow>
     (\<forall>sd. summary_consistent (tracker_of bk sd)) \<and>
     (\<forall>sd t. NUM_TICKS \<le> t \<longrightarrow> q sd t = []) \<and>
     (\<forall>sd t. t < NUM_TICKS \<longrightarrow>
        level_ok m (level_at bk (sd, t)) (q sd t) \<and>
        (tick_bit (tracker_of bk sd) t \<longleftrightarrow> q sd t \<noteq> []))"

definition orders_ok :: "(nat \<Rightarrow> Order) \<Rightarrow> nat set \<Rightarrow> (bool \<Rightarrow> nat \<Rightarrow> nat list) \<Rightarrow> bool" where
  "orders_ok m F q \<longleftrightarrow>
     (\<forall>sd t. \<forall>i\<in>set (q sd t).
        i < MAX_ORDERS \<and> i \<notin> F \<and> is_buy (m i) = sd \<and> unat (price (m i)) = t \<and> 0 < qty (m i))"

definition book_abs :: "MatchingEngine \<Rightarrow> (bool \<Rightarrow> nat \<Rightarrow> nat list) \<Rightarrow> bool" where
  "book_abs s q \<longleftrightarrow>
     pool_ok (pool s) \<and> levels_ok (book s) (pool_arr (pool s)) q \<and>
     orders_ok (pool_arr (pool s)) (free_slots (pool s)) q"

definition engine_inv :: "MatchingEngine \<Rightarrow> bool" where
  "engine_inv s \<longleftrightarrow> (\<exists>q. book_abs s q)"

definition in_flight :: "MatchingEngine \<Rightarrow> (bool \<Rightarrow> nat \<Rightarrow> nat list) \<Rightarrow> nat \<Rightarrow> bool" where
  "in_flight s q ib \<longleftrightarrow>
     book_abs s q \<and> ib < MAX_ORDERS \<and> ib \<notin> free_slots (pool s) \<and>
     (\<forall>sd t. ib \<notin> set (q sd t)) \<and> next (pool_arr (pool s) ib) = None"

text \<open>What the operations leave alone in the storage: \<^verbatim>\<open>pop_front\<close> writes \<^verbatim>\<open>prev\<close> only,
  and matching never writes the price, the side, the id or \<^verbatim>\<open>next\<close> of an order.\<close>

definition same_but_prev :: "(nat \<Rightarrow> Order) \<Rightarrow> (nat \<Rightarrow> Order) \<Rightarrow> bool" where
  "same_but_prev m' m \<longleftrightarrow> (\<forall>i. (m' i)\<lparr>prev := None\<rparr> = (m i)\<lparr>prev := None\<rparr>)"

definition static_fields :: "(nat \<Rightarrow> Order) \<Rightarrow> (nat \<Rightarrow> Order) \<Rightarrow> bool" where
  "static_fields m' m \<longleftrightarrow>
     (\<forall>i. price (m' i) = price (m i) \<and> is_buy (m' i) = is_buy (m i) \<and>
          id_fld (m' i) = id_fld (m i) \<and> next (m' i) = next (m i))"

definition abs_resting :: "(nat \<Rightarrow> Order) \<Rightarrow> (bool \<Rightarrow> nat \<Rightarrow> nat list) \<Rightarrow> nat" where
  "abs_resting m q = (\<Sum>t<NUM_TICKS. level_qty m (q True t) + level_qty m (q False t))"

definition best_tick :: "bool \<Rightarrow> (bool \<Rightarrow> nat \<Rightarrow> nat list) \<Rightarrow> nat \<Rightarrow> bool" where
  "best_tick sd q t \<longleftrightarrow> (\<forall>t'. q sd t' \<noteq> [] \<longrightarrow> (if sd then t' \<le> t else t \<le> t'))"

text \<open>\<open>match_post sd s q ib s1 q1 ts\<close>: what a matching loop against side \<open>sd\<close> achieves
  from the engine \<open>s\<close> with book \<open>q\<close> and inbound slot \<open>ib\<close>. It ends in \<open>s1\<close> with book \<open>q1\<close>
  and has appended the trades \<open>ts\<close> to the log; the other side is untouched; each queue of
  side \<open>sd\<close> was consumed from its head; the ticks of the trades are ordered; and the
  quantity taken from the inbound order and from the book is twice the quantity filled.
  \<open>call_post\<close> is the same for a whole call of \<^verbatim>\<open>processNewOrder\<close>, where a remainder of the
  inbound order joins the tail of its own queue.\<close>

definition match_post ::
  "bool \<Rightarrow> MatchingEngine \<Rightarrow> (bool \<Rightarrow> nat \<Rightarrow> nat list) \<Rightarrow> nat
     \<Rightarrow> MatchingEngine \<Rightarrow> (bool \<Rightarrow> nat \<Rightarrow> nat list) \<Rightarrow> Trade list \<Rightarrow> bool" where
  "match_post sd s q ib s1 q1 ts \<longleftrightarrow>
     in_flight s1 q1 ib \<and>
     trade_log s1 = trade_log s @ ts \<and>
     trades_executed s1 = trades_executed s + word_of_nat (length ts) \<and>
     static_fields (pool_arr (pool s1)) (pool_arr (pool s)) \<and>
     q1 (\<not> sd) = q (\<not> sd) \<and>
     (\<forall>t. level_at (book s1) (\<not> sd, t) = level_at (book s) (\<not> sd, t)) \<and>
     tracker_of (book s1) (\<not> sd) = tracker_of (book s) (\<not> sd) \<and>
     (\<forall>t. fifo_consumed (q sd t) (fills_at t ts) (q1 sd t)) \<and>
     price_ordered sd ts \<and>
     (\<forall>e\<in>set ts. q sd (trade_tick e) \<noteq> [] \<and>
        within_limit sd (price (pool_arr (pool s) ib)) (trade_price e) \<and>
        inbound_id e = id_fld (pool_arr (pool s) ib) \<and>
        resting_id e = id_fld (pool_arr (pool s) (resting_slot e)) \<and>
        0 < trade_qty e) \<and>
     2 * filled ts + abs_resting (pool_arr (pool s1)) q1 + unat (qty (pool_arr (pool s1) ib)) =
       abs_resting (pool_arr (pool s)) q + unat (qty (pool_arr (pool s) ib))"

text \<open>Where the loops stop short of an exhausted inbound order: a buy with limit \<open>p\<close>
  leaves asks above \<open>p\<close> only; a sell leaves bids below \<open>p\<close>, and bids at tick 0. A book is
  \<open>uncrossed\<close> when every bid tick is below every ask tick, tick 0 on both sides apart.\<close>

definition out_of_reach :: "bool \<Rightarrow> nat \<Rightarrow> (bool \<Rightarrow> nat \<Rightarrow> nat list) \<Rightarrow> bool" where
  "out_of_reach b p q \<longleftrightarrow>
     (if b then (\<forall>t. q False t \<noteq> [] \<longrightarrow> p < t)
      else (\<forall>t. q True t \<noteq> [] \<longrightarrow> t < p \<or> t = 0))"

definition uncrossed :: "(bool \<Rightarrow> nat \<Rightarrow> nat list) \<Rightarrow> bool" where
  "uncrossed q \<longleftrightarrow>
     (\<forall>tb ta. q True tb \<noteq> [] \<and> q False ta \<noteq> [] \<longrightarrow> tb < ta \<or> (tb = 0 \<and> ta = 0))"

definition call_post ::
  "MatchingEngine \<Rightarrow> (bool \<Rightarrow> nat \<Rightarrow> nat list) \<Rightarrow> 64 word \<Rightarrow> 32 word \<Rightarrow> 32 word \<Rightarrow> bool
     \<Rightarrow> MatchingEngine \<Rightarrow> (bool \<Rightarrow> nat \<Rightarrow> nat list) \<Rightarrow> Trade list \<Rightarrow> bool" where
  "call_post s q i pr qy b s' q' ts \<longleftrightarrow>
     book_abs s' q' \<and>
     trade_log s' = trade_log s @ ts \<and>
     trades_executed s' = trades_executed s + word_of_nat (length ts) \<and>
     (\<forall>t. fifo_consumed (q (\<not> b) t) (fills_at t ts) (q' (\<not> b) t)) \<and>
     price_ordered (\<not> b) ts \<and>
     (\<forall>e\<in>set ts. q (\<not> b) (trade_tick e) \<noteq> [] \<and> within_limit (\<not> b) pr (trade_price e) \<and>
        inbound_id e = i \<and> resting_id e = id_fld (pool_arr (pool s) (resting_slot e)) \<and>
        0 < trade_qty e) \<and>
     (\<exists>new. q' b = (q b)(unat pr := q b (unat pr) @ new) \<and> length new \<le> 1 \<and>
        (new \<noteq> [] \<longrightarrow> out_of_reach b (unat pr) q')) \<and>
     2 * filled ts + abs_resting (pool_arr (pool s')) q' =
       abs_resting (pool_arr (pool s)) q + unat qy"

subsection \<open>The trade steps of a call\<close>

text \<open>One iteration of the loop of \<^verbatim>\<open>matchBuyOrder\<close> (\<open>b = True\<close>, the inbound order is a buy)
  or of \<^verbatim>\<open>matchSellOrder\<close> that reaches \<^verbatim>\<open>executeTrade\<close>: the loop condition holds, the
  \<^verbatim>\<open>break\<close> is not taken, \<^verbatim>\<open>resting\<close> is the head of the best level, and \<^verbatim>\<open>executeTrade\<close>
  takes the engine from \<open>s\<close> to \<open>s'\<close>.\<close>

inductive trade_step :: "nat \<Rightarrow> bool \<Rightarrow> MatchingEngine \<Rightarrow> nat \<Rightarrow> MatchingEngine \<Rightarrow> bool" where
  buy: "0 < qty (pool_arr (pool s) inbound) \<Longrightarrow>
        getBestAsk (ask_tracker (book s)) = Some best \<Longrightarrow>
        \<not> (price (pool_arr (pool s) inbound) < best \<or> best = MAX_PRICE_TICKS) \<Longrightarrow>
        head (asks (book s) (unat best)) = Some resting \<Longrightarrow>
        executeTrade s inbound (Some resting) (False, unat best) best False = Some s' \<Longrightarrow>
        trade_step inbound True s resting s'"
| sell: "0 < qty (pool_arr (pool s) inbound) \<Longrightarrow>
        getBestBid (bid_tracker (book s)) = Some best \<Longrightarrow>
        \<not> (best < price (pool_arr (pool s) inbound) \<or> best = 0) \<Longrightarrow>
        head (bids (book s) (unat best)) = Some resting \<Longrightarrow>
        executeTrade s inbound (Some resting) (True, unat best) best True = Some s' \<Longrightarrow>
        trade_step inbound False s resting s'"

text \<open>\<open>matching s inbound b s1\<close>: a call of \<^verbatim>\<open>processNewOrder\<close> on the engine \<open>s\<close> with side
  \<open>b\<close> has allocated the slot \<open>inbound\<close> and stands in \<open>s1\<close> at the head of its matching
  loop, before the first trade step or after any later one. \<open>resting_slots s\<close> are the
  slots queued in the levels of either side of the engine \<open>s\<close>, and \<open>queued q\<close> the slots of
  an abstract book \<open>q\<close>.\<close>

inductive matching :: "MatchingEngine \<Rightarrow> nat \<Rightarrow> bool \<Rightarrow> MatchingEngine \<Rightarrow> bool"
  for s :: MatchingEngine and inbound :: nat and b :: bool where
  enter: "allocate (pool s) i pr qy b = Some (Inr (p, inbound)) \<Longrightarrow>
          matching s inbound b (s\<lparr>pool := p\<rparr>)"
| step: "matching s inbound b s1 \<Longrightarrow> trade_step inbound b s1 resting s2 \<Longrightarrow>
         matching s inbound b s2"

definition resting_slots :: "MatchingEngine \<Rightarrow> nat set" where
  "resting_slots s = (\<Union>sd. \<Union>t\<in>{..<NUM_TICKS}. set (side_queue s sd t))"

definition queued :: "(bool \<Rightarrow> nat \<Rightarrow> nat list) \<Rightarrow> nat set" where
  "queued q = (\<Union>sd. \<Union>t. set (q sd t))"

subsection \<open>Two scenarios\<close>

text \<open>Three sells at rising ticks and a buy that sweeps them and fills the last in part;
  three sells at one tick, to be met by a buy of 7.\<close>

definition scenario_C :: "order_req list" where
  "scenario_C = [(1, 100, 3, False), (2, 101, 4, False), (3, 102, 5, False), (4, 102, 10, True)]"


section \<open>Properties of \<^verbatim>\<open>hft_engine.cpp\<close>\<close>

lemmas eval_defs =
  processNewOrder_def new_MatchingEngine_def new_OrderPool_def allocate_def deallocate_def
  MAX_ORDERS_def matchSellOrder.simps matchBuyOrder.simps getBestBid_def getBestAsk_def
  new_OrderBook_def new_FastPriceTracker_def addOrder_def MAX_PRICE_TICKS_def isEmpty_def
  new_PriceLevel_def setPriceLevel_def clearPriceLevel_def push_back_def pop_front_def
  executeTrade_def level_at_def level_upd_def ctzll_def clzll_def Let_def zero_Order_def
  upt_rec

subsection \<open>The price index\<close>

lemma word_idx_bound: "pr < MAX_PRICE_TICKS \<Longrightarrow> unat (pr div 64) < 64"
  by (simp add: MAX_PRICE_TICKS_def unat_div word_less_nat_alt)

lemma bit_idx_bound: "unat ((pr :: 32 word) mod 64) < 64"
  by (simp add: unat_mod)

lemma bit_pow2: "bit ((2::64 word) ^ n) m \<longleftrightarrow> m = n \<and> n < 64"
  by (auto simp: bit_exp_iff)

lemma or_pow2_nonzero: "n < 64 \<Longrightarrow> (x :: 64 word) OR 2 ^ n \<noteq> 0"
proof
  assume n: "n < 64" and z: "x OR 2 ^ n = 0"
  have "bit (x OR 2 ^ n) n" using n by (simp add: bit_or_iff bit_pow2)
  with z show False by simp
qed

lemma and_not_pow2_inactive: "\<not> bit (x :: 64 word) n \<Longrightarrow> x AND NOT (2 ^ n) = x"
  by (rule bit_eqI) (auto simp: bit_and_iff bit_not_iff bit_pow2)

lemma setPriceLevel_idem: "setPriceLevel t pr = Some t1 \<Longrightarrow> setPriceLevel t1 pr = Some t1"
  by (auto simp: setPriceLevel_def Let_def split: if_splits)

lemma clearPriceLevel_idem: "clearPriceLevel t pr = Some t1 \<Longrightarrow> clearPriceLevel t1 pr = Some t1"
  by (auto simp: clearPriceLevel_def Let_def split: if_splits)

lemma setPriceLevel_defined: "pr < MAX_PRICE_TICKS \<Longrightarrow> \<exists>t1. setPriceLevel t pr = Some t1"
  using word_idx_bound[of pr] by (simp add: setPriceLevel_def Let_def)

lemma clearPriceLevel_defined: "pr < MAX_PRICE_TICKS \<Longrightarrow> \<exists>t1. clearPriceLevel t pr = Some t1"
  using word_idx_bound[of pr] by (simp add: clearPriceLevel_def Let_def)

lemma summary_consistent_new: "summary_consistent new_FastPriceTracker"
  by (simp add: summary_consistent_def new_FastPriceTracker_def)

lemma summary_consistent_set:
  assumes "summary_consistent t" "setPriceLevel t pr = Some t'"
  shows "summary_consistent t'"
  using assms bit_idx_bound[of pr]
  by (auto simp: summary_consistent_def setPriceLevel_def Let_def bit_or_iff bit_pow2
        or_pow2_nonzero split: if_splits)

lemma summary_consistent_clear:
  assumes "summary_consistent t" "clearPriceLevel t pr = Some t'"
  shows "summary_consistent t'"
  using assms
  by (auto simp: summary_consistent_def clearPriceLevel_def Let_def bit_and_iff bit_not_iff
        bit_pow2 split: if_splits)

lemma index_state_consistent: "index_state t \<Longrightarrow> summary_consistent t"
  by (induction rule: index_state.induct)
     (auto intro: summary_consistent_new summary_consistent_set summary_consistent_clear)

lemma clear_inactive:
  assumes "summary_consistent t" "\<not> tick_active t pr" "pr < MAX_PRICE_TICKS"
  shows "clearPriceLevel t pr = Some t"
proof -
  let ?w = "unat (pr div 64)"
  have w: "?w < 64" using assms(3) by (rule word_idx_bound)
  have dw: "data_words t ?w AND NOT (2 ^ unat (pr mod 64)) = data_words t ?w"
    using assms(2) by (simp add: tick_active_def and_not_pow2_inactive)
  show ?thesis
  proof (cases "data_words t ?w = 0")
    case True
    then have "\<not> bit (summary_word t) ?w"
      using assms(1) w by (simp add: summary_consistent_def)
    then have "summary_word t AND NOT (2 ^ ?w) = summary_word t"
      by (rule and_not_pow2_inactive)
    moreover have "(data_words t)(?w := 0) = data_words t"
      using True by (metis fun_upd_triv)
    ultimately show ?thesis using w dw True by (simp add: clearPriceLevel_def Let_def)
  next
    case False
    then show ?thesis using w dw by (simp add: clearPriceLevel_def Let_def)
  qed
qed

text \<open>
  Claim C9. For a tick below \<^verbatim>\<open>MAX_PRICE_TICKS\<close>, \<^verbatim>\<open>setPriceLevel\<close> and
  \<^verbatim>\<open>clearPriceLevel\<close> are defined on every value of the index and idempotent: a second
  application to the result returns the result (summary word and data words). On every
  state of the index, clearing a tick that is not active returns the state itself.
\<close>

theorem index_set_clear_idempotent:
  assumes "pr < MAX_PRICE_TICKS"
  shows "(\<exists>t1. setPriceLevel t pr = Some t1 \<and> setPriceLevel t1 pr = Some t1) \<and>
         (\<exists>t1. clearPriceLevel t pr = Some t1 \<and> clearPriceLevel t1 pr = Some t1) \<and>
         (index_state t \<and> \<not> tick_active t pr \<longrightarrow> clearPriceLevel t pr = Some t)"
  using assms setPriceLevel_defined[OF assms, of t] clearPriceLevel_defined[OF assms, of t]
  by (auto dest: setPriceLevel_idem clearPriceLevel_idem index_state_consistent
           intro: clear_inactive)

theorem index_set_clear_idempotent_witness:
  "(70 :: 32 word) < MAX_PRICE_TICKS \<and>
   setPriceLevel new_FastPriceTracker 70 =
     Some \<lparr>summary_word = 2, data_words = (\<lambda>_. 0)(1 := 64)\<rparr> \<and>
   setPriceLevel \<lparr>summary_word = 2, data_words = (\<lambda>_. 0)(1 := 64)\<rparr> 70 =
     Some \<lparr>summary_word = 2, data_words = (\<lambda>_. 0)(1 := 64)\<rparr> \<and>
   index_state new_FastPriceTracker \<and> \<not> tick_active new_FastPriceTracker 70 \<and>
   clearPriceLevel new_FastPriceTracker 70 = Some new_FastPriceTracker"
proof -
  have h: "(70 :: 32 word) < MAX_PRICE_TICKS" by (simp add: MAX_PRICE_TICKS_def)
  have a: "\<not> tick_active new_FastPriceTracker 70"
    by (simp add: tick_active_def new_FastPriceTracker_def)
  have s: "setPriceLevel new_FastPriceTracker 70 =
     Some \<lparr>summary_word = 2, data_words = (\<lambda>_. 0)(1 := 64)\<rparr>"
    by (simp add: setPriceLevel_def new_FastPriceTracker_def Let_def)
  from index_set_clear_idempotent[OF h, of new_FastPriceTracker] h a s index_state.new
  show ?thesis by auto
qed

subsection \<open>Rejected and degenerate orders\<close>

text \<open>
  Claim C7. When the free stack is empty, \<^verbatim>\<open>processNewOrder\<close> ends with the exception of
  \<^verbatim>\<open>allocate\<close>, and the engine the exception leaves behind is the engine before the call:
  book, indices, pool, trade counter and trade log are untouched, and no matching has
  taken place.
\<close>

theorem arena_exhausted_rejects:
  assumes "free_idx (pool s) = 0"
  shows "processNewOrder s i pr q b = Some (Inl (ArenaExhausted, s))"
  using assms by (simp add: processNewOrder_def allocate_def)

theorem arena_exhausted_rejects_witness:
  "free_idx (pool (new_MatchingEngine\<lparr>pool := new_OrderPool\<lparr>free_idx := 0\<rparr>\<rparr>)) = 0 \<and>
   processNewOrder (new_MatchingEngine\<lparr>pool := new_OrderPool\<lparr>free_idx := 0\<rparr>\<rparr>) 5 100 10 True =
     Some (Inl (ArenaExhausted, new_MatchingEngine\<lparr>pool := new_OrderPool\<lparr>free_idx := 0\<rparr>\<rparr>))"
  using arena_exhausted_rejects
          [of "new_MatchingEngine\<lparr>pool := new_OrderPool\<lparr>free_idx := 0\<rparr>\<rparr>" 5 100 10 True]
  by simp

text \<open>
  Claim C6 says that an order with quantity 0 or with a price of \<^verbatim>\<open>MAX_PRICE_TICKS\<close> or
  more is rejected with an error before any change of state. The program has no such
  check and no such error. On a new engine an order of quantity 0 returns normally; and
  after a sell of 5 at tick 10, a buy of 5 at price 5000 returns normally and has traded.
\<close>

theorem zero_qty_and_out_of_range_price_accepted:
  "map_option (map_sum fst (\<lambda>s. (trades_executed s, free_idx (pool s))))
     (processNewOrder new_MatchingEngine 7 100 0 True) = Some (Inr (0, MAX_ORDERS)) \<and>
   map_option (map_sum fst (\<lambda>s. (trades_executed s, trade_log s)))
     (run new_MatchingEngine [(1, 10, 5, False), (2, 5000, 5, True)]) =
     Some (Inr (1, [\<lparr>inbound_id = 2, resting_id = 1, resting_slot = 0, trade_price = 10,
                     trade_qty = 5\<rparr>]))"
  by (simp add: eval_defs)

text \<open>
  Claim C6, amended. An order of quantity 0, at any price, on an engine with a free slot
  returns normally. It takes the slot on top of the free stack, skips both the matching
  loop and the book, and gives the slot back: the book, both indices, the free stack, the
  trade counter and the trade log are as before, and the only change is the content of
  that free slot, which holds the fields of the order.
\<close>

theorem zero_qty_order_passes_through:
  assumes "0 < free_idx (pool s)" "free_idx (pool s) \<le> MAX_ORDERS"
      and "free_list (pool s) (free_idx (pool s) - 1) < MAX_ORDERS"
  shows "processNewOrder s i pr 0 b =
           Some (Inr (s\<lparr>pool := (pool s)\<lparr>pool_arr := (pool_arr (pool s))
             (free_list (pool s) (free_idx (pool s) - 1) :=
                \<lparr>id_fld = i, price = pr, qty = 0, is_buy = b, prev = None, next = None\<rparr>)\<rparr>\<rparr>))"
  using assms
  by (simp add: processNewOrder_def allocate_def Let_def matchBuyOrder.simps
        matchSellOrder.simps deallocate_def)

theorem zero_qty_order_passes_through_witness:
  "0 < free_idx (pool new_MatchingEngine) \<and> free_idx (pool new_MatchingEngine) \<le> MAX_ORDERS \<and>
   free_list (pool new_MatchingEngine) (free_idx (pool new_MatchingEngine) - 1) < MAX_ORDERS \<and>
   processNewOrder new_MatchingEngine 7 9999 0 False =
     Some (Inr (new_MatchingEngine\<lparr>pool := new_OrderPool\<lparr>pool_arr := (\<lambda>_. zero_Order)
        (0 := \<lparr>id_fld = 7, price = 9999, qty = 0, is_buy = False, prev = None,
               next = None\<rparr>)\<rparr>\<rparr>))"
proof -
  have a: "0 < free_idx (pool new_MatchingEngine)"
    and b: "free_idx (pool new_MatchingEngine) \<le> MAX_ORDERS"
    and c: "free_list (pool new_MatchingEngine) (free_idx (pool new_MatchingEngine) - 1)
              < MAX_ORDERS"
    by (simp_all add: new_MatchingEngine_def new_OrderPool_def MAX_ORDERS_def)
  from zero_qty_order_passes_through[OF a b c, of 7 9999 False] a b c
  show ?thesis by (simp add: new_MatchingEngine_def new_OrderPool_def MAX_ORDERS_def)
qed

subsection \<open>The queue of a price level\<close>

text \<open>
  Claim C8 (\<^verbatim>\<open>pop_front\<close> returns the head with both sibling handles null). The function
  of \<^verbatim>\<open>hft_engine.cpp\<close> returns the old head and clears \<^verbatim>\<open>prev\<close> of the new head, but it
  never writes to the order it returns. With slots 0 and 1 appended to an empty level, the
  popped slot 0 still has slot 1 as its \<^verbatim>\<open>next\<close>.
\<close>

theorem pop_front_keeps_next_of_popped:
  "do { (m1, l1) \<leftarrow> push_back (\<lambda>_. zero_Order) new_PriceLevel 0;
        (m2, l2) \<leftarrow> push_back m1 l1 1;
        let (m3, l3, r) = pop_front m2 l2;
        Some (r, next (m3 0), prev (m3 0), l3) } =
   Some (Some 0, Some 1, None, \<lparr>head = Some 1, tail = Some 1\<rparr>)"
  by (simp add: eval_defs)
section \<open>The invariant of the book and the matching loops\<close>

subsection \<open>Linked lists in the storage, and the bit scans\<close>

lemma NUM_TICKS_eq: "NUM_TICKS = 4096"
  by (simp add: NUM_TICKS_def MAX_PRICE_TICKS_def)

lemma linked_None [simp]: "linked m None xs \<longleftrightarrow> xs = []"
  by (cases xs) auto

lemma linked_Some: "linked m (Some x) xs \<longleftrightarrow> (\<exists>ys. xs = x # ys \<and> linked m (next (m x)) ys)"
  by (cases xs) auto

lemma linked_unique: "linked m p xs \<Longrightarrow> linked m p ys \<Longrightarrow> xs = ys"
  by (induction xs arbitrary: p ys) (auto simp: linked_Some)

lemma linked_next_cong:
  "(\<And>i. i \<in> set xs \<Longrightarrow> next (m' i) = next (m i)) \<Longrightarrow> linked m' p xs = linked m p xs"
  by (induction xs arbitrary: p) auto

lemma linked_suffix_notin: "linked m p (xs @ x # ys) \<Longrightarrow> linked m (Some x) (x # ys)"
  by (induction xs arbitrary: p) auto

lemma linked_head_notin_tail: "linked m (next (m x)) xs \<Longrightarrow> x \<notin> set xs"
proof
  assume l: "linked m (next (m x)) xs" and "x \<in> set xs"
  then obtain ys zs where xs: "xs = ys @ x # zs" by (auto simp: in_set_conv_decomp)
  from linked_suffix_notin[OF l[unfolded xs]] have "linked m (next (m x)) zs" by simp
  from linked_unique[OF l this] xs show False by simp
qed

lemma linked_distinct: "linked m p xs \<Longrightarrow> distinct xs"
  by (induction xs arbitrary: p) (auto dest: linked_head_notin_tail)

lemma chain_linked: "linked m p xs \<Longrightarrow> length xs \<le> n \<Longrightarrow> chain n m p = xs"
proof (induction n m p arbitrary: xs rule: chain.induct)
  case (1 m p) then show ?case by simp
next
  case (2 n m) then show ?case by simp
next
  case (3 n m x) then show ?case by (auto simp: linked_Some)
qed

lemma distinct_bounded_length:
  assumes "distinct xs" "set xs \<subseteq> {..<n}"
  shows "length xs \<le> n"
proof -
  have "length xs = card (set xs)" using assms(1) by (simp add: distinct_card)
  also have "\<dots> \<le> card {..<n}" using assms(2) by (intro card_mono) auto
  finally show ?thesis by simp
qed

lemma queue_of_linked:
  assumes "linked m (head l) xs" "set xs \<subseteq> {..<MAX_ORDERS}"
  shows "queue_of m l = xs"
  unfolding queue_of_def
  by (rule chain_linked[OF assms(1)]) (rule distinct_bounded_length[OF linked_distinct[OF assms(1)] assms(2)])

lemma linked_snoc:
  assumes "linked m p xs" "xs \<noteq> []" "o' \<notin> set xs" "next (m o') = None"
  shows "linked (m(last xs := (m (last xs))\<lparr>next := Some o'\<rparr>)) p (xs @ [o'])"
  using assms
proof (induction xs arbitrary: p)
  case Nil then show ?case by simp
next
  case (Cons x xs)
  show ?case
  proof (cases "xs = []")
    case True
    with Cons.prems show ?thesis by auto
  next
    case False
    from Cons.prems have nx: "x \<notin> set xs" by (auto dest: linked_head_notin_tail)
    with False have "last xs \<noteq> x" using last_in_set by metis
    with Cons False show ?thesis by auto
  qed
qed

lemma word64_nonzero_bit: "(w :: 64 word) \<noteq> 0 \<Longrightarrow> \<exists>b<64. bit w b"
proof (rule ccontr)
  assume w: "w \<noteq> 0" and n: "\<not> (\<exists>b<64. bit w b)"
  have "w = 0"
  proof (rule bit_eqI)
    fix k assume "possible_bit TYPE(64 word) k"
    then have "k < 64" by simp
    with n show "bit w k \<longleftrightarrow> bit (0 :: 64 word) k" by simp
  qed
  with w show False by simp
qed

lemma ctzll_least:
  assumes "(w :: 64 word) \<noteq> 0"
  shows "\<exists>b<64. ctzll w = Some b \<and> bit w b \<and> (\<forall>j<b. \<not> bit w j)"
proof -
  from word64_nonzero_bit[OF assms] obtain b0 where "b0 < 64" "bit w b0" by auto
  then have "find (bit w) [0..<64] \<noteq> None" by (auto simp: find_None_iff)
  then obtain b where f: "find (bit w) [0..<64] = Some b" by auto
  then obtain i where i: "i < 64" "bit w ([0..<64] ! i)" "b = [0..<64] ! i"
     "\<forall>j<i. \<not> bit w ([0..<64] ! j)"
    by (auto simp: find_Some_iff)
  have r: "[0..<64] ! j = j" if "j < 64" for j :: nat
    using that by simp
  have "b = i" using i r by simp
  moreover have "\<not> bit w j" if "j < i" for j
    using i(4) that r[of j] i(1) by auto
  ultimately show ?thesis using f i(1,2) r[of i] unfolding ctzll_def by auto
qed

lemma clzll_greatest:
  assumes "(w :: 64 word) \<noteq> 0"
  shows "\<exists>b<64. clzll w = Some (63 - b) \<and> bit w b \<and> (\<forall>j. b < j \<and> j < 64 \<longrightarrow> \<not> bit w j)"
proof -
  from word64_nonzero_bit[OF assms] obtain b0 where "b0 < 64" "bit w b0" by auto
  then have "find (bit w) (rev [0..<64]) \<noteq> None" by (auto simp: find_None_iff)
  then obtain b where f: "find (bit w) (rev [0..<64]) = Some b" by auto
  then obtain i where i: "i < 64" "bit w (rev [0..<64] ! i)" "b = rev [0..<64] ! i"
     "\<forall>j<i. \<not> bit w (rev [0..<64] ! j)"
    by (auto simp: find_Some_iff)
  have r: "rev [0..<64] ! j = 63 - j" if "j < 64" for j
    using that by (simp add: rev_nth)
  have b: "b = 63 - i" "b < 64" "bit w b" using i r by auto
  have "\<not> bit w j" if "b < j" "j < 64" for j
  proof -
    have "63 - j < i" using that b i(1) by simp
    with i(4) have "\<not> bit w (rev [0..<64] ! (63 - j))" by blast
    with r[of "63 - j"] that show ?thesis by simp
  qed
  with b f show ?thesis unfolding clzll_def by (intro exI[of _ b]) auto
qed

lemma unat_tick:
  assumes "w < 64" "b < 64"
  shows "unat (word_of_nat w * 64 + word_of_nat b :: 32 word) = w * 64 + b"
proof (rule of_nat_inverse)
  show "(word_of_nat (w * 64 + b) :: 32 word) = word_of_nat w * 64 + word_of_nat b" by simp
  show "w * 64 + b < 2 ^ LENGTH(32)" using assms by simp
qed

subsection \<open>The price index finds the best tick\<close>

lemma unat_div64: "unat ((pr :: 32 word) div 64) = unat pr div 64"
  by (simp add: unat_div)

lemma unat_mod64: "unat ((pr :: 32 word) mod 64) = unat pr mod 64"
  by (simp add: unat_mod)

lemma tick_active_tick_bit: "tick_active tr pr = tick_bit tr (unat pr)"
  by (simp add: tick_active_def tick_bit_def unat_div64 unat_mod64)

lemma tick_split: "(t :: nat) = u \<longleftrightarrow> t div 64 = u div 64 \<and> t mod 64 = u mod 64"
  by (metis div_mult_mod_eq)

lemma setPriceLevel_Some:
  "setPriceLevel tr pr = Some tr' \<Longrightarrow> unat pr < NUM_TICKS"
  by (auto simp: setPriceLevel_def Let_def unat_div64 NUM_TICKS_eq split: if_splits)

lemma setPriceLevel_tick_bit:
  assumes "setPriceLevel tr pr = Some tr'"
  shows "tick_bit tr' t \<longleftrightarrow> t = unat pr \<or> tick_bit tr t"
proof -
  have b: "unat pr mod 64 < 64" by simp
  from assms have tr': "tr' = tr\<lparr>data_words := (data_words tr)(unat pr div 64 :=
                       data_words tr (unat pr div 64) OR 2 ^ (unat pr mod 64)),
                   summary_word := summary_word tr OR 2 ^ (unat pr div 64)\<rparr>"
    by (auto simp: setPriceLevel_def Let_def unat_div64 unat_mod64 split: if_splits)
  show ?thesis
    unfolding tr' tick_bit_def using b
    by (auto simp: bit_or_iff bit_pow2 tick_split[of t "unat pr"])
qed

lemma clearPriceLevel_tick_bit:
  assumes "clearPriceLevel tr pr = Some tr'"
  shows "tick_bit tr' t \<longleftrightarrow> t \<noteq> unat pr \<and> tick_bit tr t"
proof -
  have b: "unat pr mod 64 < 64" by simp
  from assms have "data_words tr' = (data_words tr)(unat pr div 64 :=
                       data_words tr (unat pr div 64) AND NOT (2 ^ (unat pr mod 64)))"
    by (auto simp: clearPriceLevel_def Let_def unat_div64 unat_mod64 split: if_splits)
  then show ?thesis
    unfolding tick_bit_def using b
    by (auto simp: bit_and_iff bit_not_iff bit_pow2 tick_split[of t "unat pr"])
qed

lemma clearPriceLevel_defined_nat:
  "unat pr < NUM_TICKS \<Longrightarrow> \<exists>tr'. clearPriceLevel tr pr = Some tr'"
  by (simp add: clearPriceLevel_def Let_def unat_div64 NUM_TICKS_eq)

lemma setPriceLevel_defined_nat:
  "unat pr < NUM_TICKS \<Longrightarrow> \<exists>tr'. setPriceLevel tr pr = Some tr'"
  by (simp add: setPriceLevel_def Let_def unat_div64 NUM_TICKS_eq)

lemma data_word_zero_iff:
  "data_words tr w = 0 \<longleftrightarrow> (\<forall>b<64. \<not> tick_bit tr (w * 64 + b))"
proof
  assume "data_words tr w = 0"
  then show "\<forall>b<64. \<not> tick_bit tr (w * 64 + b)" by (simp add: tick_bit_def)
next
  assume a: "\<forall>b<64. \<not> tick_bit tr (w * 64 + b)"
  show "data_words tr w = 0"
  proof (rule ccontr)
    assume "data_words tr w \<noteq> 0"
    from word64_nonzero_bit[OF this] obtain b where "b < 64" "bit (data_words tr w) b" by auto
    with a show False by (auto simp: tick_bit_def)
  qed
qed

lemma summary_zero_iff:
  assumes "summary_consistent tr"
  shows "summary_word tr = 0 \<longleftrightarrow> (\<forall>t<NUM_TICKS. \<not> tick_bit tr t)"
proof
  assume z: "summary_word tr = 0"
  show "\<forall>t<NUM_TICKS. \<not> tick_bit tr t"
  proof (intro allI impI)
    fix t assume t: "t < NUM_TICKS"
    then have w: "t div 64 < 64" by (simp add: NUM_TICKS_eq)
    with assms z have "data_words tr (t div 64) = 0" by (simp add: summary_consistent_def)
    then show "\<not> tick_bit tr t" by (simp add: tick_bit_def)
  qed
next
  assume a: "\<forall>t<NUM_TICKS. \<not> tick_bit tr t"
  show "summary_word tr = 0"
  proof (rule ccontr)
    assume "summary_word tr \<noteq> 0"
    from word64_nonzero_bit[OF this] obtain w where w: "w < 64" "bit (summary_word tr) w" by auto
    with assms have "data_words tr w \<noteq> 0" by (simp add: summary_consistent_def)
    then obtain b where b: "b < 64" "tick_bit tr (w * 64 + b)" by (auto simp: data_word_zero_iff)
    from w b have "w * 64 + b < NUM_TICKS" by (simp add: NUM_TICKS_eq)
    with a b show False by blast
  qed
qed

lemma getBestAsk_empty:
  assumes "summary_consistent tr" "\<forall>t<NUM_TICKS. \<not> tick_bit tr t"
  shows "getBestAsk tr = Some MAX_PRICE_TICKS"
  using assms by (simp add: getBestAsk_def summary_zero_iff)

lemma getBestBid_empty:
  assumes "summary_consistent tr" "\<forall>t<NUM_TICKS. \<not> tick_bit tr t"
  shows "getBestBid tr = Some 0"
  using assms by (simp add: getBestBid_def summary_zero_iff)

lemma getBestAsk_lowest:
  assumes c: "summary_consistent tr" and t0: "t0 < NUM_TICKS" "tick_bit tr t0"
  shows "\<exists>a. getBestAsk tr = Some a \<and> unat a < NUM_TICKS \<and> tick_bit tr (unat a) \<and>
             (\<forall>t<unat a. \<not> tick_bit tr t)"
proof -
  from c t0 have nz: "summary_word tr \<noteq> 0" by (auto simp: summary_zero_iff)
  from ctzll_least[OF nz] obtain w where w: "w < 64" "ctzll (summary_word tr) = Some w"
    "bit (summary_word tr) w" "\<forall>j<w. \<not> bit (summary_word tr) j" by auto
  from c w have dnz: "data_words tr w \<noteq> 0" by (simp add: summary_consistent_def)
  from ctzll_least[OF dnz] obtain b where b: "b < 64" "ctzll (data_words tr w) = Some b"
    "bit (data_words tr w) b" "\<forall>j<b. \<not> bit (data_words tr w) j" by auto
  let ?a = "word_of_nat w * 64 + word_of_nat b :: 32 word"
  have ua: "unat ?a = w * 64 + b" using w(1) b(1) by (rule unat_tick)
  have g: "getBestAsk tr = Some ?a" using nz w(2) b(2) by (simp add: getBestAsk_def)
  have lt: "unat ?a < NUM_TICKS" using ua w(1) b(1) by (simp add: NUM_TICKS_eq)
  have act: "tick_bit tr (unat ?a)" using ua b(1,3) by (simp add: tick_bit_def)
  have low: "\<not> tick_bit tr t" if "t < unat ?a" for t
  proof (cases "t div 64 < w")
    case True
    with w(4) have "\<not> bit (summary_word tr) (t div 64)" by blast
    moreover have "t div 64 < 64" using True w(1) by simp
    ultimately have "data_words tr (t div 64) = 0" using c by (simp add: summary_consistent_def)
    then show ?thesis by (simp add: tick_bit_def)
  next
    case False
    have "t div 64 \<le> w" using that ua b(1) by (simp add: div_le_mono[of t "w * 64 + b" 64])
    with False have e: "t div 64 = w" by simp
    have "t mod 64 < b"
    proof -
      have "t = w * 64 + t mod 64" using e by (metis div_mult_mod_eq)
      with that ua show ?thesis by linarith
    qed
    with b(4) e show ?thesis by (simp add: tick_bit_def)
  qed
  from g lt act low show ?thesis by blast
qed

lemma getBestBid_highest:
  assumes c: "summary_consistent tr" and t0: "t0 < NUM_TICKS" "tick_bit tr t0"
  shows "\<exists>a. getBestBid tr = Some a \<and> unat a < NUM_TICKS \<and> tick_bit tr (unat a) \<and>
             (\<forall>t. unat a < t \<and> t < NUM_TICKS \<longrightarrow> \<not> tick_bit tr t)"
proof -
  from c t0 have nz: "summary_word tr \<noteq> 0" by (auto simp: summary_zero_iff)
  from clzll_greatest[OF nz] obtain w where w: "w < 64" "clzll (summary_word tr) = Some (63 - w)"
    "bit (summary_word tr) w" "\<forall>j. w < j \<and> j < 64 \<longrightarrow> \<not> bit (summary_word tr) j" by auto
  from c w have dnz: "data_words tr w \<noteq> 0" by (simp add: summary_consistent_def)
  from clzll_greatest[OF dnz] obtain b where b: "b < 64" "clzll (data_words tr w) = Some (63 - b)"
    "bit (data_words tr w) b" "\<forall>j. b < j \<and> j < 64 \<longrightarrow> \<not> bit (data_words tr w) j" by auto
  let ?a = "word_of_nat w * 64 + word_of_nat b :: 32 word"
  have ua: "unat ?a = w * 64 + b" using w(1) b(1) by (rule unat_tick)
  have ww: "63 - (63 - w) = w" and bb: "63 - (63 - b) = b" using w(1) b(1) by simp_all
  have g: "getBestBid tr = Some ?a" using nz w(2) b(2) by (simp add: getBestBid_def ww bb)
  have lt: "unat ?a < NUM_TICKS" using ua w(1) b(1) by (simp add: NUM_TICKS_eq)
  have act: "tick_bit tr (unat ?a)" using ua b(1,3) by (simp add: tick_bit_def)
  have high: "\<not> tick_bit tr t" if "unat ?a < t" "t < NUM_TICKS" for t
  proof (cases "w < t div 64")
    case True
    have "t div 64 < 64" using that(2) by (simp add: NUM_TICKS_eq)
    with True w(4) have "\<not> bit (summary_word tr) (t div 64)" by blast
    with \<open>t div 64 < 64\<close> have "data_words tr (t div 64) = 0"
      using c by (simp add: summary_consistent_def)
    then show ?thesis by (simp add: tick_bit_def)
  next
    case False
    have "w \<le> t div 64" using that(1) ua by (simp add: div_le_mono[of "w * 64 + b" t 64] b(1))
    with False have e: "t div 64 = w" by simp
    have "b < t mod 64"
    proof -
      have "t = w * 64 + t mod 64" using e by (metis div_mult_mod_eq)
      with that ua show ?thesis by linarith
    qed
    with b(4) e show ?thesis by (simp add: tick_bit_def)
  qed
  from g lt act high show ?thesis by blast
qed

subsection \<open>Levels, trackers and the free stack\<close>

lemma level_at_upd: "level_at (level_upd bk r l) r' = (if r' = r then l else level_at bk r')"
  by (cases r; cases r') (auto simp: level_at_def level_upd_def)

lemma tracker_of_level_upd [simp]: "tracker_of (level_upd bk r l) sd = tracker_of bk sd"
  by (simp add: tracker_of_def level_upd_def)

lemma level_at_tracker_upd [simp]: "level_at (tracker_upd bk sd tr) r = level_at bk r"
  by (simp add: level_at_def tracker_upd_def)

lemma tracker_of_tracker_upd:
  "tracker_of (tracker_upd bk sd tr) sd' = (if sd' = sd then tr else tracker_of bk sd')"
  by (auto simp: tracker_of_def tracker_upd_def)

lemma free_idx_room:
  assumes "pool_ok p" "x < MAX_ORDERS" "x \<notin> free_slots p"
  shows "free_idx p < MAX_ORDERS"
proof -
  from assms(1) have inj: "inj_on (free_list p) {..<free_idx p}"
    and sub: "free_slots p \<subseteq> {..<MAX_ORDERS}" by (auto simp: pool_ok_def)
  have "free_idx p = card (free_slots p)"
    using inj by (simp add: free_slots_def card_image)
  also have "free_slots p \<subseteq> {..<MAX_ORDERS} - {x}" using sub assms(3) by auto
  then have "card (free_slots p) \<le> card ({..<MAX_ORDERS} - {x})" by (intro card_mono) auto
  also have "\<dots> = MAX_ORDERS - 1" using assms(2) by simp
  finally show ?thesis using assms(2) by simp
qed

lemma deallocate_ok:
  assumes "pool_ok p" "x < MAX_ORDERS" "x \<notin> free_slots p"
  shows "\<exists>p'. deallocate p x = Some p' \<and> pool_ok p' \<and> free_slots p' = insert x (free_slots p) \<and>
              pool_arr p' = pool_arr p"
proof -
  have room: "free_idx p < MAX_ORDERS" by (rule free_idx_room[OF assms])
  let ?p' = "p\<lparr>free_list := (free_list p)(free_idx p := x), free_idx := free_idx p + 1\<rparr>"
  have d: "deallocate p x = Some ?p'" using room by (simp add: deallocate_def)
  have lt: "{..<free_idx p + 1} = insert (free_idx p) {..<free_idx p}" by auto
  have img: "((free_list p)(free_idx p := x)) ` {..<free_idx p} = free_slots p"
    by (auto simp: free_slots_def)
  have "((free_list p)(free_idx p := x)) ` {..<free_idx p + 1} = insert x (free_slots p)"
    unfolding lt image_insert img by simp
  then have fs: "free_slots ?p' = insert x (free_slots p)"
    by (simp add: free_slots_def)
  have inj: "inj_on ((free_list p)(free_idx p := x)) {..<free_idx p + 1}"
    unfolding lt using assms(1,3)
    by (auto simp: pool_ok_def inj_on_def free_slots_def)
  have "pool_ok ?p'"
    using room assms(1,2) inj fs by (auto simp: pool_ok_def)
  with d fs show ?thesis by auto
qed

lemma allocate_ok:
  assumes "pool_ok p" "0 < free_idx p"
  shows "\<exists>p' ib. allocate p i pr qy b = Some (Inr (p', ib)) \<and> pool_ok p' \<and>
           ib < MAX_ORDERS \<and> ib \<in> free_slots p \<and> free_slots p' = free_slots p - {ib} \<and>
           pool_arr p' = (pool_arr p)(ib := \<lparr>id_fld = i, price = pr, qty = qy, is_buy = b,
                                              prev = None, next = None\<rparr>)"
proof -
  let ?fi = "free_idx p - 1"
  let ?ib = "free_list p ?fi"
  from assms have fi: "?fi < free_idx p" "?fi < MAX_ORDERS" by (auto simp: pool_ok_def)
  then have mem: "?ib \<in> free_slots p" by (auto simp: free_slots_def)
  with assms(1) have ib: "?ib < MAX_ORDERS" by (auto simp: pool_ok_def)
  let ?p' = "p\<lparr>pool_arr := (pool_arr p)(?ib := \<lparr>id_fld = i, price = pr, qty = qy, is_buy = b,
                 prev = None, next = None\<rparr>), free_idx := ?fi\<rparr>"
  have a: "allocate p i pr qy b = Some (Inr (?p', ?ib))"
    using assms(2) fi ib by (simp add: allocate_def Let_def)
  have split: "{..<free_idx p} = insert ?fi {..<?fi}" using assms(2) by auto
  have inj: "inj_on (free_list p) {..<free_idx p}" using assms(1) by (simp add: pool_ok_def)
  have fs: "free_slots ?p' = free_slots p - {?ib}"
  proof -
    have ne: "free_list p j \<noteq> ?ib" if "j < ?fi" for j
    proof
      assume "free_list p j = ?ib"
      with inj have "j = ?fi" using that fi(1) by (auto simp: inj_on_def)
      with that show False by simp
    qed
    have "free_list p ` {..<free_idx p} = insert ?ib (free_list p ` {..<?fi})"
      by (subst split) simp
    then have "free_list p ` {..<?fi} = free_list p ` {..<free_idx p} - {?ib}"
      using ne by auto
    then show ?thesis by (simp add: free_slots_def)
  qed
  have "inj_on (free_list p) {..<?fi}" using inj by (rule inj_on_subset) auto
  then have "pool_ok ?p'" using assms(1) fs by (auto simp: pool_ok_def)
  with a ib mem fs show ?thesis by auto
qed

subsection \<open>The queue operations keep the levels\<close>

lemma same_but_prevD:
  assumes "same_but_prev m' m"
  shows "next (m' i) = next (m i)" "qty (m' i) = qty (m i)" "price (m' i) = price (m i)"
        "is_buy (m' i) = is_buy (m i)" "id_fld (m' i) = id_fld (m i)"
proof -
  from assms have e: "(m' i)\<lparr>prev := None\<rparr> = (m i)\<lparr>prev := None\<rparr>"
    by (simp add: same_but_prev_def)
  from arg_cong[OF e, of "next"] show "next (m' i) = next (m i)" by simp
  from arg_cong[OF e, of qty] show "qty (m' i) = qty (m i)" by simp
  from arg_cong[OF e, of price] show "price (m' i) = price (m i)" by simp
  from arg_cong[OF e, of is_buy] show "is_buy (m' i) = is_buy (m i)" by simp
  from arg_cong[OF e, of id_fld] show "id_fld (m' i) = id_fld (m i)" by simp
qed

lemma same_but_prev_refl [simp]: "same_but_prev m m"
  by (simp add: same_but_prev_def)

lemma same_but_prev_upd [simp]: "same_but_prev (m(h := (m h)\<lparr>prev := x\<rparr>)) m"
  by (simp add: same_but_prev_def)

lemma level_ok_next_cong:
  "(\<And>i. i \<in> set xs \<Longrightarrow> next (m' i) = next (m i)) \<Longrightarrow> level_ok m' l xs = level_ok m l xs"
  by (simp add: level_ok_def linked_next_cong[of xs m' m])

lemma level_ok_head: "level_ok m l xs \<Longrightarrow> head l = (case xs of [] \<Rightarrow> None | x # _ \<Rightarrow> Some x)"
  by (cases xs) (auto simp: level_ok_def)

lemma level_ok_empty_iff: "level_ok m l xs \<Longrightarrow> isEmpty l \<longleftrightarrow> xs = []"
  by (cases xs) (auto simp: level_ok_def isEmpty_def)

lemma pop_front_ok:
  assumes "level_ok m l (r # rest)"
  shows "\<exists>m' l'. pop_front m l = (m', l', Some r) \<and> level_ok m' l' rest \<and> same_but_prev m' m"
proof (cases rest)
  case Nil
  with assms have "head l = Some r" "next (m r) = None" by (auto simp: level_ok_def)
  then have "pop_front m l = (m, l\<lparr>head := None, tail := None\<rparr>, Some r)"
    by (simp add: pop_front_def)
  with Nil show ?thesis by (auto simp: level_ok_def)
next
  case (Cons h rest')
  with assms have hd: "head l = Some r" "next (m r) = Some h"
    and lk: "linked m (Some h) (h # rest')"
    and tl: "tail l = Some (last (h # rest'))"
    by (auto simp: level_ok_def)
  let ?m' = "m(h := (m h)\<lparr>prev := None\<rparr>)"
  have p: "pop_front m l = (?m', l\<lparr>head := Some h\<rparr>, Some r)"
    using hd by (simp add: pop_front_def)
  have "linked ?m' (Some h) (h # rest') = linked m (Some h) (h # rest')"
    by (rule linked_next_cong) simp
  with lk tl have "level_ok ?m' (l\<lparr>head := Some h\<rparr>) (h # rest')"
    by (simp add: level_ok_def)
  with p Cons show ?thesis by (intro exI[of _ ?m'] exI[of _ "l\<lparr>head := Some h\<rparr>"]) simp
qed

lemma push_back_ok:
  assumes "level_ok m l xs" "o' \<notin> set xs" "next (m o') = None"
  shows "\<exists>m' l'. push_back m l o' = Some (m', l') \<and> level_ok m' l' (xs @ [o']) \<and>
           (\<forall>i. i \<noteq> o' \<longrightarrow> (xs = [] \<or> i \<noteq> last xs) \<longrightarrow> m' i = m i) \<and>
           (\<forall>i. qty (m' i) = qty (m i) \<and> price (m' i) = price (m i) \<and>
                is_buy (m' i) = is_buy (m i) \<and> id_fld (m' i) = id_fld (m i))"
proof (cases "xs = []")
  case True
  with assms have "head l = None" by (simp add: level_ok_def)
  then have "push_back m l o' = Some (m, l\<lparr>head := Some o', tail := Some o'\<rparr>)"
    by (simp add: push_back_def)
  with True assms(3) show ?thesis by (auto simp: level_ok_def)
next
  case False
  then obtain x ys where xs: "xs = x # ys" by (cases xs) auto
  with assms have hd: "head l = Some x" and tl: "tail l = Some (last xs)"
    and lk: "linked m (head l) xs"
    by (auto simp: level_ok_def)
  let ?t = "last xs"
  let ?m1 = "m(?t := (m ?t)\<lparr>next := Some o'\<rparr>)"
  let ?m2 = "?m1(o' := (?m1 o')\<lparr>prev := Some ?t\<rparr>)"
  have p: "push_back m l o' = Some (?m2, l\<lparr>tail := Some o'\<rparr>)"
    using hd tl by (simp add: push_back_def Let_def)
  have l1: "linked ?m1 (head l) (xs @ [o'])"
    by (rule linked_snoc[OF lk False assms(2,3)])
  have "linked ?m2 (head l) (xs @ [o']) = linked ?m1 (head l) (xs @ [o'])"
    by (rule linked_next_cong) simp
  with l1 have "level_ok ?m2 (l\<lparr>tail := Some o'\<rparr>) (xs @ [o'])"
    by (simp add: level_ok_def)
  moreover have "\<forall>i. i \<noteq> o' \<longrightarrow> (xs = [] \<or> i \<noteq> last xs) \<longrightarrow> ?m2 i = m i"
    using False by simp
  moreover have "\<forall>i. qty (?m2 i) = qty (m i) \<and> price (?m2 i) = price (m i) \<and>
                is_buy (?m2 i) = is_buy (m i) \<and> id_fld (?m2 i) = id_fld (m i)"
    by simp
  ultimately show ?thesis using p by blast
qed

lemma levels_ok_next_cong:
  assumes "levels_ok bk m q" "\<And>sd t i. i \<in> set (q sd t) \<Longrightarrow> next (m' i) = next (m i)"
  shows "levels_ok bk m' q"
proof -
  have "level_ok m' l (q sd t) = level_ok m l (q sd t)" for l sd t
    by (rule level_ok_next_cong) (rule assms(2))
  with assms(1) show ?thesis by (simp add: levels_ok_def)
qed

lemma levels_okD:
  assumes "levels_ok bk m q" "t < NUM_TICKS"
  shows "level_ok m (level_at bk (sd, t)) (q sd t)"
    and "tick_bit (tracker_of bk sd) t \<longleftrightarrow> q sd t \<noteq> []"
    and "summary_consistent (tracker_of bk sd)"
  using assms by (auto simp: levels_ok_def)

lemma levels_ok_active_lt: "levels_ok bk m q \<Longrightarrow> q sd t \<noteq> [] \<Longrightarrow> t < NUM_TICKS"
  by (auto simp: levels_ok_def not_le[symmetric])

text \<open>Removing the head of one level.\<close>

lemma levels_ok_pop:
  assumes ok: "levels_ok bk m q" and t: "t < NUM_TICKS" and q: "q sd t = r # rest"
    and m': "\<And>i. next (m' i) = next (m i)"
    and l': "level_ok m' l' rest"
    and tr: "rest = [] \<Longrightarrow> clearPriceLevel (tracker_of bk sd) fp = Some tr'" and fp: "unat fp = t"
  shows "levels_ok (if rest = [] then tracker_upd (level_upd bk (sd, t) l') sd tr'
                    else level_upd bk (sd, t) l') m' (q(sd := (q sd)(t := rest)))"
    (is "levels_ok ?bk m' ?q")
  unfolding levels_ok_def
proof (intro conjI allI impI)
  fix sd'
  show "summary_consistent (tracker_of ?bk sd')"
    using levels_okD(3)[OF ok t] tr summary_consistent_clear[of "tracker_of bk sd" fp tr']
    by (auto simp: tracker_of_tracker_upd)
next
  fix sd' t' assume "NUM_TICKS \<le> t'"
  with ok t show "?q sd' t' = []" by (auto simp: levels_ok_def)
next
  fix sd' t' assume t': "t' < NUM_TICKS"
  have old: "level_ok m' (level_at bk (sd', t')) (q sd' t')"
    using levels_okD(1)[OF ok t', of sd'] level_ok_next_cong[of "q sd' t'" m' m] m' by simp
  show "level_ok m' (level_at ?bk (sd', t')) (?q sd' t')"
    using old l' by (auto simp: level_at_upd)
next
  fix sd' t' assume t': "t' < NUM_TICKS"
  have old: "tick_bit (tracker_of bk sd') t' \<longleftrightarrow> q sd' t' \<noteq> []"
    by (rule levels_okD(2)[OF ok t'])
  show "tick_bit (tracker_of ?bk sd') t' \<longleftrightarrow> ?q sd' t' \<noteq> []"
  proof (cases "rest = []")
    case True
    from clearPriceLevel_tick_bit[OF tr[OF True], of t'] fp old q True
    show ?thesis by (auto simp: tracker_of_tracker_upd)
  next
    case False
    with old q show ?thesis by auto
  qed
qed

subsection \<open>The two outcomes of a trade\<close>

lemma executeTrade_unfold_full:
  assumes "m = pool_arr (pool s)" "f = min (qty (m ib)) (qty (m r))"
    and "m1 = m(ib := (m ib)\<lparr>qty := qty (m ib) - f\<rparr>)"
    and "m2 = m1(r := (m1 r)\<lparr>qty := qty (m1 r) - f\<rparr>)"
    and "qty (m2 r) = 0"
    and "pop_front m2 (level_at (book s) lref) = (m3, l', x)"
    and "bk1 = level_upd (book s) lref l'"
    and "(if isEmpty l' then map_option (tracker_upd bk1 sd) (clearPriceLevel (tracker_of bk1 sd) fp)
          else Some bk1) = Some bk2"
    and "deallocate ((pool s)\<lparr>pool_arr := m3\<rparr>) r = Some p'"
  shows "executeTrade s ib (Some r) lref fp sd =
           Some (s\<lparr>book := bk2, pool := p', trades_executed := trades_executed s + 1,
                   trade_log := trade_log s @ [mk_trade m ib r fp f]\<rparr>)"
  using assms
  by (cases sd) (auto simp: executeTrade_def Let_def tracker_upd_def tracker_of_def mk_trade_def
      split: if_splits)

lemma executeTrade_unfold_partial:
  assumes "m = pool_arr (pool s)" "f = min (qty (m ib)) (qty (m r))"
    and "m1 = m(ib := (m ib)\<lparr>qty := qty (m ib) - f\<rparr>)"
    and "m2 = m1(r := (m1 r)\<lparr>qty := qty (m1 r) - f\<rparr>)"
    and "qty (m2 r) \<noteq> 0"
  shows "executeTrade s ib (Some r) lref fp sd =
           Some (s\<lparr>pool := (pool s)\<lparr>pool_arr := m2\<rparr>, trades_executed := trades_executed s + 1,
                   trade_log := trade_log s @ [mk_trade m ib r fp f]\<rparr>)"
  using assms
  by (simp add: executeTrade_def Let_def mk_trade_def)

lemma pool_ok_pool_arr [simp]: "pool_ok (p\<lparr>pool_arr := m\<rparr>) = pool_ok p"
  by (simp add: pool_ok_def free_slots_def)

lemma free_slots_pool_arr [simp]: "free_slots (p\<lparr>pool_arr := m\<rparr>) = free_slots p"
  by (simp add: free_slots_def)

lemma in_flightD:
  assumes "in_flight s q ib"
  shows "pool_ok (pool s)" "levels_ok (book s) (pool_arr (pool s)) q"
    "orders_ok (pool_arr (pool s)) (free_slots (pool s)) q"
    "ib < MAX_ORDERS" "ib \<notin> free_slots (pool s)" "ib \<notin> set (q sd t)"
    "next (pool_arr (pool s) ib) = None"
  using assms by (auto simp: in_flight_def book_abs_def)

lemma orders_okD:
  assumes "orders_ok m F q" "i \<in> set (q sd t)"
  shows "i < MAX_ORDERS" "i \<notin> F" "is_buy (m i) = sd" "unat (price (m i)) = t" "0 < qty (m i)"
  using assms by (auto simp: orders_ok_def)

lemma orders_ok_other_level:
  assumes "orders_ok m F q" "i \<in> set (q sd t)" "i \<in> set (q sd' t')"
  shows "sd' = sd \<and> t' = t"
  using orders_okD(3,4)[OF assms(1,2)] orders_okD(3,4)[OF assms(1,3)] by auto

lemma executeTrade_full:
  fixes s q ib sd t r rest fp
  defines "m \<equiv> pool_arr (pool s)"
  assumes fl: "in_flight s q ib" and t: "t < NUM_TICKS" "unat fp = t" and q: "q sd t = r # rest"
    and le: "qty (m r) \<le> qty (m ib)"
  shows "\<exists>s'. executeTrade s ib (Some r) (sd, t) fp sd = Some s' \<and>
           in_flight s' (q(sd := (q sd)(t := rest))) ib \<and>
           trade_log s' = trade_log s @ [mk_trade m ib r fp (qty (m r))] \<and>
           trades_executed s' = trades_executed s + 1 \<and>
           qty (pool_arr (pool s') ib) = qty (m ib) - qty (m r) \<and>
           (\<forall>i. i \<noteq> ib \<and> i \<noteq> r \<longrightarrow> qty (pool_arr (pool s') i) = qty (m i)) \<and>
           static_fields (pool_arr (pool s')) m \<and>
           (\<forall>t'. level_at (book s') (\<not> sd, t') = level_at (book s) (\<not> sd, t')) \<and>
           tracker_of (book s') (\<not> sd) = tracker_of (book s) (\<not> sd) \<and>
           qty (pool_arr (pool s') r) = 0 \<and>
           free_slots (pool s') = insert r (free_slots (pool s))"
proof -
  have meq: "m = pool_arr (pool s)" by (simp add: m_def)
  note d = in_flightD[OF fl, folded m_def]
  have rq: "r \<in> set (q sd t)" using q by simp
  note ro = orders_okD[OF d(3) rq]
  have rib: "r \<noteq> ib" using d(6)[of sd t] rq by auto
  define f where "f = min (qty (m ib)) (qty (m r))"
  have f: "f = qty (m r)" using le by (simp add: f_def min_def)
  define m1 where "m1 = m(ib := (m ib)\<lparr>qty := qty (m ib) - f\<rparr>)"
  define m2 where "m2 = m1(r := (m1 r)\<lparr>qty := qty (m1 r) - f\<rparr>)"
  have z: "qty (m2 r) = 0" using rib by (simp add: m2_def m1_def f)
  have nx2: "next (m2 i) = next (m i)" for i by (simp add: m2_def m1_def)
  have lok: "level_ok m (level_at (book s) (sd, t)) (r # rest)"
    using levels_okD(1)[OF d(2) t(1), of sd] q by simp
  have dist: "distinct (r # rest)"
    by (rule linked_distinct[of m "head (level_at (book s) (sd, t))"])
       (use lok in \<open>simp only: level_ok_def\<close>)
  have lok2: "level_ok m2 (level_at (book s) (sd, t)) (r # rest)"
    using lok level_ok_next_cong[of "r # rest" m2 m] nx2 by simp
  from pop_front_ok[OF lok2] obtain m3 l' where
    pf: "pop_front m2 (level_at (book s) (sd, t)) = (m3, l', Some r)"
    and l': "level_ok m3 l' rest" and sp: "same_but_prev m3 m2" by blast
  note sp3 = same_but_prevD[OF sp]
  have nx3: "next (m3 i) = next (m i)" for i using sp3(1)[of i] nx2[of i] by simp
  define bk1 where "bk1 = level_upd (book s) (sd, t) l'"
  from clearPriceLevel_defined_nat[of fp "tracker_of (book s) sd"] t obtain tr' where
    cl: "clearPriceLevel (tracker_of (book s) sd) fp = Some tr'" by auto
  define bk2 where "bk2 = (if rest = [] then tracker_upd bk1 sd tr' else bk1)"
  have emp: "isEmpty l' \<longleftrightarrow> rest = []" by (rule level_ok_empty_iff[OF l'])
  have bk2: "(if isEmpty l' then map_option (tracker_upd bk1 sd)
                (clearPriceLevel (tracker_of bk1 sd) fp) else Some bk1) = Some bk2"
    using cl by (simp add: emp bk2_def bk1_def)
  from deallocate_ok[of "(pool s)\<lparr>pool_arr := m3\<rparr>" r] d(1) ro(1,2) obtain p' where
    de: "deallocate ((pool s)\<lparr>pool_arr := m3\<rparr>) r = Some p'" and pk': "pool_ok p'"
    and fs': "free_slots p' = insert r (free_slots (pool s))" and pa': "pool_arr p' = m3"
    by auto
  define s' where "s' = s\<lparr>book := bk2, pool := p', trades_executed := trades_executed s + 1,
                   trade_log := trade_log s @ [mk_trade m ib r fp f]\<rparr>"
  have ex: "executeTrade s ib (Some r) (sd, t) fp sd = Some s'"
    unfolding s'_def
    by (rule executeTrade_unfold_full[OF meq f_def m1_def m2_def z pf bk1_def bk2 de])
  let ?q = "q(sd := (q sd)(t := rest))"
  have sub: "set (?q sd' t') \<subseteq> set (q sd' t')" for sd' t'
    using q by auto
  have lv': "levels_ok bk2 m3 ?q"
    unfolding bk2_def bk1_def
    by (rule levels_ok_pop[OF d(2) t(1) q nx3 l' cl t(2)])
  have oo': "orders_ok m3 (insert r (free_slots (pool s))) ?q"
    unfolding orders_ok_def
  proof (intro allI ballI)
    fix sd' t' i assume i: "i \<in> set (?q sd' t')"
    then have iq: "i \<in> set (q sd' t')" using sub by blast
    note io = orders_okD[OF d(3) iq]
    have "i \<noteq> r"
    proof
      assume e: "i = r"
      with orders_ok_other_level[OF d(3) rq] iq have "sd' = sd" "t' = t" by auto
      with i e dist show False by simp
    qed
    moreover have "i \<noteq> ib" using d(6)[of sd' t'] iq by auto
    ultimately have "qty (m3 i) = qty (m i)" using sp3(2)[of i] by (simp add: m2_def m1_def)
    moreover have "is_buy (m3 i) = is_buy (m i)" "price (m3 i) = price (m i)"
      using sp3(3,4)[of i] by (simp_all add: m2_def m1_def)
    ultimately show "i < MAX_ORDERS \<and> i \<notin> insert r (free_slots (pool s)) \<and>
        is_buy (m3 i) = sd' \<and> unat (price (m3 i)) = t' \<and> 0 < qty (m3 i)"
      using io \<open>i \<noteq> r\<close> by (simp add: m_def)
  qed
  have ibq': "ib \<notin> set (?q sd' t')" for sd' t'
    using d(6)[of sd' t'] sub[of sd' t'] by blast
  have fl': "in_flight s' ?q ib"
    unfolding in_flight_def book_abs_def
    using pk' lv' oo' d(4,5,7) rib ibq' nx3[of ib]
    by (simp add: s'_def fs' pa')
  have qi: "qty (pool_arr (pool s') ib) = qty (m ib) - qty (m r)"
    using sp3(2)[of ib] rib by (simp add: s'_def pa' m2_def m1_def f)
  have qo: "\<forall>i. i \<noteq> ib \<and> i \<noteq> r \<longrightarrow> qty (pool_arr (pool s') i) = qty (m i)"
    using sp3(2) by (simp add: s'_def pa' m2_def m1_def)
  have st: "static_fields (pool_arr (pool s')) m"
    unfolding static_fields_def using sp3(3,4,5) nx3
    by (simp add: s'_def pa' m2_def m1_def)
  have oth: "\<forall>t'. level_at (book s') (\<not> sd, t') = level_at (book s) (\<not> sd, t')"
    by (simp add: s'_def bk2_def bk1_def level_at_upd)
  have otr: "tracker_of (book s') (\<not> sd) = tracker_of (book s) (\<not> sd)"
    by (simp add: s'_def bk2_def bk1_def tracker_of_tracker_upd)
  have qz: "qty (pool_arr (pool s') r) = 0"
    using sp3(2)[of r] z by (simp add: s'_def pa')
  have fr: "free_slots (pool s') = insert r (free_slots (pool s))"
    by (simp add: s'_def fs')
  from ex fl' qi qo st oth otr qz fr show ?thesis
    by (intro exI[of _ s']) (simp add: s'_def f)
qed

lemma executeTrade_partial:
  fixes s q ib sd t r rest fp
  defines "m \<equiv> pool_arr (pool s)"
  assumes fl: "in_flight s q ib" and t: "t < NUM_TICKS" and q: "q sd t = r # rest"
    and lt: "qty (m ib) < qty (m r)"
  shows "\<exists>s'. executeTrade s ib (Some r) (sd, t) fp sd = Some s' \<and>
           in_flight s' q ib \<and>
           trade_log s' = trade_log s @ [mk_trade m ib r fp (qty (m ib))] \<and>
           trades_executed s' = trades_executed s + 1 \<and>
           qty (pool_arr (pool s') ib) = 0 \<and>
           qty (pool_arr (pool s') r) = qty (m r) - qty (m ib) \<and>
           (\<forall>i. i \<noteq> ib \<and> i \<noteq> r \<longrightarrow> qty (pool_arr (pool s') i) = qty (m i)) \<and>
           static_fields (pool_arr (pool s')) m \<and>
           book s' = book s \<and>
           free_slots (pool s') = free_slots (pool s)"
proof -
  have meq: "m = pool_arr (pool s)" by (simp add: m_def)
  note d = in_flightD[OF fl, folded m_def]
  have rq: "r \<in> set (q sd t)" using q by simp
  note ro = orders_okD[OF d(3) rq]
  have rib: "r \<noteq> ib" using d(6)[of sd t] rq by auto
  define f where "f = min (qty (m ib)) (qty (m r))"
  have f: "f = qty (m ib)" using lt by (simp add: f_def min_absorb1 less_imp_le)
  define m1 where "m1 = m(ib := (m ib)\<lparr>qty := qty (m ib) - f\<rparr>)"
  define m2 where "m2 = m1(r := (m1 r)\<lparr>qty := qty (m1 r) - f\<rparr>)"
  have pos: "0 < qty (m r) - qty (m ib)"
    using lt by (simp add: word_neq_0_conv[symmetric])
  have nz: "qty (m2 r) \<noteq> 0" using rib lt by (simp add: m2_def m1_def f)
  define s' where "s' = s\<lparr>pool := (pool s)\<lparr>pool_arr := m2\<rparr>,
                   trades_executed := trades_executed s + 1,
                   trade_log := trade_log s @ [mk_trade m ib r fp f]\<rparr>"
  have ex: "executeTrade s ib (Some r) (sd, t) fp sd = Some s'"
    unfolding s'_def
    by (rule executeTrade_unfold_partial[OF meq f_def m1_def m2_def nz])
  have nx2: "next (m2 i) = next (m i)" for i by (simp add: m2_def m1_def)
  have lv': "levels_ok (book s) m2 q"
    by (rule levels_ok_next_cong[OF d(2)]) (rule nx2)
  have oo': "orders_ok m2 (free_slots (pool s)) q"
    unfolding orders_ok_def
  proof (intro allI ballI)
    fix sd' t' i assume iq: "i \<in> set (q sd' t')"
    note io = orders_okD[OF d(3) iq]
    have "i \<noteq> ib" using d(6)[of sd' t'] iq by auto
    then have "0 < qty (m2 i)" using io(5) pos rib by (simp add: m2_def m1_def f)
    moreover have "is_buy (m2 i) = is_buy (m i)" "price (m2 i) = price (m i)"
      by (simp_all add: m2_def m1_def)
    ultimately show "i < MAX_ORDERS \<and> i \<notin> free_slots (pool s) \<and>
        is_buy (m2 i) = sd' \<and> unat (price (m2 i)) = t' \<and> 0 < qty (m2 i)"
      using io by simp
  qed
  have fl': "in_flight s' q ib"
    unfolding in_flight_def book_abs_def
    using d(1,4,5,6,7) lv' oo' nx2[of ib]
    by (simp add: s'_def)
  have st: "static_fields (pool_arr (pool s')) m"
    unfolding static_fields_def by (simp add: s'_def m2_def m1_def)
  from ex fl' st rib show ?thesis
    by (intro exI[of _ s']) (simp add: s'_def f m2_def m1_def)
qed

lemma level_qty_cong:
  "(\<And>i. i \<in> set xs \<Longrightarrow> qty (m' i) = qty (m i)) \<Longrightarrow> level_qty m' xs = level_qty m xs"
  unfolding level_qty_def by (induction xs) auto

lemma level_qty_Cons [simp]: "level_qty m (x # xs) = unat (qty (m x)) + level_qty m xs"
  by (simp add: level_qty_def)

lemma level_qty_Nil [simp]: "level_qty m [] = 0"
  by (simp add: level_qty_def)

lemma level_qty_append [simp]: "level_qty m (xs @ ys) = level_qty m xs + level_qty m ys"
  by (simp add: level_qty_def)

lemma abs_resting_one_level:
  assumes t: "t < NUM_TICKS"
    and same: "\<And>sd' t'. (sd', t') \<noteq> (sd, t) \<Longrightarrow> level_qty m' (q' sd' t') = level_qty m (q sd' t')"
  shows "abs_resting m' q' + level_qty m (q sd t) = abs_resting m q + level_qty m' (q' sd t)"
proof -
  let ?g = "\<lambda>t. level_qty m (q True t) + level_qty m (q False t)"
  let ?g' = "\<lambda>t. level_qty m' (q' True t) + level_qty m' (q' False t)"
  have fin: "finite {..<NUM_TICKS}" and mem: "t \<in> {..<NUM_TICKS}" using t by auto
  have rest: "sum ?g' ({..<NUM_TICKS} - {t}) = sum ?g ({..<NUM_TICKS} - {t})"
    by (rule sum.cong) (auto simp: same)
  have at: "?g' t + level_qty m (q sd t) = ?g t + level_qty m' (q' sd t)"
    using same[of "\<not> sd" t] by (cases sd) auto
  have "abs_resting m' q' = ?g' t + sum ?g' ({..<NUM_TICKS} - {t})"
    unfolding abs_resting_def by (rule sum.remove[OF fin mem])
  moreover have "abs_resting m q = ?g t + sum ?g ({..<NUM_TICKS} - {t})"
    unfolding abs_resting_def by (rule sum.remove[OF fin mem])
  ultimately show ?thesis using rest at by linarith
qed

lemma abs_resting_cong:
  assumes "\<And>sd t. level_qty m' (q' sd t) = level_qty m (q sd t)"
  shows "abs_resting m' q' = abs_resting m q"
  unfolding abs_resting_def by (simp add: assms)

subsection \<open>Trades and the resting quantity\<close>

lemma fifo_consumed_refl: "fifo_consumed q0 [] q0"
  by (simp add: fifo_consumed_def)

lemma fifo_consumed_step: "fifo_consumed rest c q1 \<Longrightarrow> fifo_consumed (r # rest) (r # c) q1"
  by (auto simp: fifo_consumed_def)

lemma fifo_consumed_partial: "fifo_consumed (r # rest) [r] (r # rest)"
  by (simp add: fifo_consumed_def)

lemma static_fields_refl [simp]: "static_fields m m"
  by (simp add: static_fields_def)

lemma static_fields_trans: "static_fields m2 m1 \<Longrightarrow> static_fields m1 m \<Longrightarrow> static_fields m2 m"
  by (simp add: static_fields_def)

lemma static_fieldsD:
  assumes "static_fields m' m"
  shows "price (m' i) = price (m i)" "is_buy (m' i) = is_buy (m i)"
        "id_fld (m' i) = id_fld (m i)" "next (m' i) = next (m i)"
  using assms by (simp_all add: static_fields_def)

lemma match_post_refl: "in_flight s q ib \<Longrightarrow> match_post sd s q ib s q []"
  by (simp add: match_post_def fifo_consumed_refl fills_at_def price_ordered_def filled_def)

lemma mk_trade_sel [simp]:
  "trade_tick (mk_trade m ib r fp f) = unat fp" "resting_slot (mk_trade m ib r fp f) = r"
  "trade_qty (mk_trade m ib r fp f) = f" "trade_price (mk_trade m ib r fp f) = fp"
  "inbound_id (mk_trade m ib r fp f) = id_fld (m ib)"
  "resting_id (mk_trade m ib r fp f) = id_fld (m r)"
  by (simp_all add: mk_trade_def trade_tick_def)

lemma abs_resting_full:
  assumes fl: "in_flight s q ib" and t: "t < NUM_TICKS" and q: "q sd t = r # rest"
    and same: "\<forall>i. i \<noteq> ib \<and> i \<noteq> r \<longrightarrow> qty (m' i) = qty (pool_arr (pool s) i)"
  shows "abs_resting m' (q(sd := (q sd)(t := rest))) + unat (qty (pool_arr (pool s) r)) =
         abs_resting (pool_arr (pool s)) q"
proof -
  let ?m = "pool_arr (pool s)" and ?q = "q(sd := (q sd)(t := rest))"
  note d = in_flightD[OF fl]
  have rq: "r \<in> set (q sd t)" using q by simp
  have lok: "level_ok ?m (level_at (book s) (sd, t)) (r # rest)"
    using levels_okD(1)[OF d(2) t, of sd] q by simp
  have dist: "distinct (r # rest)"
    by (rule linked_distinct[of ?m "head (level_at (book s) (sd, t))"])
       (use lok in \<open>simp only: level_ok_def\<close>)
  have keep: "qty (m' i) = qty (?m i)" if "i \<in> set (?q sd' t')" for i sd' t'
  proof -
    have iq: "i \<in> set (q sd' t')" using that q by (auto split: if_splits)
    have "i \<noteq> r"
    proof
      assume e: "i = r"
      with orders_ok_other_level[OF d(3) rq] iq have "sd' = sd" "t' = t" by auto
      with that e dist show False by simp
    qed
    moreover have "i \<noteq> ib" using d(6)[of sd' t'] iq by auto
    ultimately show ?thesis using same by simp
  qed
  have "abs_resting m' ?q + level_qty ?m (q sd t) = abs_resting ?m q + level_qty m' (?q sd t)"
  proof (rule abs_resting_one_level[OF t])
    fix sd' t' assume ne: "(sd', t') \<noteq> (sd, t)"
    have e: "?q sd' t' = q sd' t'" using ne by auto
    have "level_qty m' (?q sd' t') = level_qty ?m (?q sd' t')"
      by (rule level_qty_cong) (rule keep)
    then show "level_qty m' (?q sd' t') = level_qty ?m (q sd' t')" by (simp only: e)
  qed
  moreover have "level_qty m' (?q sd t) = level_qty ?m rest"
    using level_qty_cong[of "?q sd t" m' ?m] keep[of _ sd t] by simp
  ultimately show ?thesis using q by simp
qed

lemma abs_resting_partial:
  assumes fl: "in_flight s q ib" and t: "t < NUM_TICKS" and q: "q sd t = r # rest"
    and same: "\<forall>i. i \<noteq> ib \<and> i \<noteq> r \<longrightarrow> qty (m' i) = qty (pool_arr (pool s) i)"
  shows "abs_resting m' q + unat (qty (pool_arr (pool s) r)) =
         abs_resting (pool_arr (pool s)) q + unat (qty (m' r))"
proof -
  let ?m = "pool_arr (pool s)"
  note d = in_flightD[OF fl]
  have rq: "r \<in> set (q sd t)" using q by simp
  have lok: "level_ok ?m (level_at (book s) (sd, t)) (r # rest)"
    using levels_okD(1)[OF d(2) t, of sd] q by simp
  have dist: "distinct (r # rest)"
    by (rule linked_distinct[of ?m "head (level_at (book s) (sd, t))"])
       (use lok in \<open>simp only: level_ok_def\<close>)
  have keep: "qty (m' i) = qty (?m i)" if "i \<in> set (q sd' t')" "(sd', t') \<noteq> (sd, t) \<or> i \<in> set rest"
    for i sd' t'
  proof -
    have "i \<noteq> r"
    proof
      assume e: "i = r"
      with orders_ok_other_level[OF d(3) rq] that(1) have "sd' = sd" "t' = t" by auto
      with that e dist show False by simp
    qed
    moreover have "i \<noteq> ib" using d(6)[of sd' t'] that(1) by auto
    ultimately show ?thesis using same by simp
  qed
  have "abs_resting m' q + level_qty ?m (q sd t) = abs_resting ?m q + level_qty m' (q sd t)"
  proof (rule abs_resting_one_level[OF t])
    fix sd' t' assume ne: "(sd', t') \<noteq> (sd, t)"
    show "level_qty m' (q sd' t') = level_qty ?m (q sd' t')"
      by (rule level_qty_cong) (use keep ne in blast)
  qed
  moreover have "level_qty m' rest = level_qty ?m rest"
    by (rule level_qty_cong) (use keep[of _ sd t] q in simp)
  ultimately show ?thesis using q by simp
qed

subsection \<open>One trade, then the rest of the loop\<close>

lemma fills_at_Cons:
  "fills_at t (e # ts) = (if trade_tick e = t then resting_slot e # fills_at t ts else fills_at t ts)"
  by (simp add: fills_at_def)

lemma price_ordered_Cons:
  assumes "price_ordered sd ts" "\<forall>e'\<in>set ts. if sd then trade_tick e' \<le> trade_tick e
                                             else trade_tick e \<le> trade_tick e'"
  shows "price_ordered sd (e # ts)"
  using assms by (auto simp: price_ordered_def sorted_append)

lemma match_post_full:
  fixes s q ib sd t r rest fp
  defines "m \<equiv> pool_arr (pool s)"
  assumes fl: "in_flight s q ib" and t: "t < NUM_TICKS" "unat fp = t" and q: "q sd t = r # rest"
    and le: "qty (m r) \<le> qty (m ib)"
    and best: "best_tick sd q t" and lim: "within_limit sd (price (m ib)) fp"
  shows "\<exists>s'. executeTrade s ib (Some r) (sd, t) fp sd = Some s' \<and>
           in_flight s' (q(sd := (q sd)(t := rest))) ib \<and>
           unat (qty (pool_arr (pool s') ib)) < unat (qty (m ib)) \<and>
           static_fields (pool_arr (pool s')) m \<and>
           (\<forall>s1 q1 ts. match_post sd s' (q(sd := (q sd)(t := rest))) ib s1 q1 ts \<longrightarrow>
              match_post sd s q ib s1 q1 (mk_trade m ib r fp (qty (m r)) # ts))"
proof -
  let ?q = "q(sd := (q sd)(t := rest))"
  let ?e = "mk_trade m ib r fp (qty (m r))"
  note d = in_flightD[OF fl, folded m_def]
  have rq: "r \<in> set (q sd t)" using q by simp
  note ro = orders_okD[OF d(3) rq]
  from executeTrade_full[OF fl t q le[unfolded m_def], folded m_def] obtain s' where
    ex: "executeTrade s ib (Some r) (sd, t) fp sd = Some s'"
    and fl': "in_flight s' ?q ib"
    and lg: "trade_log s' = trade_log s @ [?e]"
    and te: "trades_executed s' = trades_executed s + 1"
    and qi: "qty (pool_arr (pool s') ib) = qty (m ib) - qty (m r)"
    and qo: "\<forall>i. i \<noteq> ib \<and> i \<noteq> r \<longrightarrow> qty (pool_arr (pool s') i) = qty (m i)"
    and st: "static_fields (pool_arr (pool s')) m"
    and ol: "\<forall>t'. level_at (book s') (\<not> sd, t') = level_at (book s) (\<not> sd, t')"
    and ot: "tracker_of (book s') (\<not> sd) = tracker_of (book s) (\<not> sd)"
    by blast
  let ?m' = "pool_arr (pool s')"
  have uq: "unat (qty (?m' ib)) = unat (qty (m ib)) - unat (qty (m r))"
    using le by (simp add: qi unat_sub)
  have rpos: "0 < unat (qty (m r))" using ro(5) by (simp add: word_less_nat_alt)
  have rle: "unat (qty (m r)) \<le> unat (qty (m ib))" using le by (simp add: word_le_nat_alt)
  have dec: "unat (qty (?m' ib)) < unat (qty (m ib))" using uq rpos rle by simp
  have ar: "abs_resting ?m' ?q + unat (qty (m r)) = abs_resting m q"
    unfolding m_def by (rule abs_resting_full[OF fl t(1) q qo[unfolded m_def]])
  have mono: "q sd t' \<noteq> []" if "?q sd t' \<noteq> []" for t'
    using that q by (auto split: if_splits)
  have comp: "match_post sd s q ib s1 q1 (?e # ts)"
    if mp: "match_post sd s' ?q ib s1 q1 ts" for s1 q1 ts
  proof -
    note p = mp[unfolded match_post_def]
    note p1 = p[THEN conjunct1]
    note p2 = p[THEN conjunct2, THEN conjunct1]
    note p3 = p[THEN conjunct2, THEN conjunct2, THEN conjunct1]
    note p4 = p[THEN conjunct2, THEN conjunct2, THEN conjunct2, THEN conjunct1]
    note r4 = p[THEN conjunct2, THEN conjunct2, THEN conjunct2, THEN conjunct2]
    note p5 = r4[THEN conjunct1]
    note p6 = r4[THEN conjunct2, THEN conjunct1]
    note p7 = r4[THEN conjunct2, THEN conjunct2, THEN conjunct1]
    note p8 = r4[THEN conjunct2, THEN conjunct2, THEN conjunct2, THEN conjunct1]
    note r8 = r4[THEN conjunct2, THEN conjunct2, THEN conjunct2, THEN conjunct2]
    note p9 = r8[THEN conjunct1]
    note p10 = r8[THEN conjunct2, THEN conjunct1]
    note p11 = r8[THEN conjunct2, THEN conjunct2]
    let ?m1 = "pool_arr (pool s1)"
    have st1: "static_fields ?m1 m"
      using p4 st by (rule static_fields_trans)
    have fifo: "fifo_consumed (q sd t') (fills_at t' (?e # ts)) (q1 sd t')" for t'
    proof (cases "t' = t")
      case True
      from p8 have "fifo_consumed (?q sd t) (fills_at t ts) (q1 sd t)" by blast
      then have "fifo_consumed rest (fills_at t ts) (q1 sd t)" by simp
      from fifo_consumed_step[OF this, of r] show ?thesis
        using True q t(2) by (simp add: fills_at_Cons)
    next
      case False
      from p8 have "fifo_consumed (?q sd t') (fills_at t' ts) (q1 sd t')" by blast
      with False t(2) show ?thesis by (simp add: fills_at_Cons)
    qed
    have ord: "price_ordered sd (?e # ts)"
    proof (rule price_ordered_Cons)
      show "price_ordered sd ts" by (rule p9)
      show "\<forall>e'\<in>set ts. if sd then trade_tick e' \<le> trade_tick ?e
                                 else trade_tick ?e \<le> trade_tick e'"
      proof
        fix e' assume "e' \<in> set ts"
        with p10 have "?q sd (trade_tick e') \<noteq> []" by blast
        from mono[OF this] best t(2)
        show "if sd then trade_tick e' \<le> trade_tick ?e else trade_tick ?e \<le> trade_tick e'"
          by (auto simp: best_tick_def)
      qed
    qed
    have each: "\<forall>e'\<in>set (?e # ts). q sd (trade_tick e') \<noteq> [] \<and>
        within_limit sd (price (pool_arr (pool s) ib)) (trade_price e') \<and>
        inbound_id e' = id_fld (pool_arr (pool s) ib) \<and>
        resting_id e' = id_fld (pool_arr (pool s) (resting_slot e')) \<and> 0 < trade_qty e'"
    proof
      fix e' assume in_e: "e' \<in> set (?e # ts)"
      show "q sd (trade_tick e') \<noteq> [] \<and>
        within_limit sd (price (pool_arr (pool s) ib)) (trade_price e') \<and>
        inbound_id e' = id_fld (pool_arr (pool s) ib) \<and>
        resting_id e' = id_fld (pool_arr (pool s) (resting_slot e')) \<and> 0 < trade_qty e'"
      proof (cases "e' = ?e")
        case True
        then show ?thesis using q t(2) lim ro(5) by (simp add: m_def)
      next
        case False
        with in_e have "e' \<in> set ts" by simp
        with p10 have "?q sd (trade_tick e') \<noteq> []"
          "within_limit sd (price (?m' ib)) (trade_price e')"
          "inbound_id e' = id_fld (?m' ib)" "resting_id e' = id_fld (?m' (resting_slot e'))"
          "0 < trade_qty e'" by blast+
        then show ?thesis using mono static_fieldsD[OF st] by (simp add: m_def)
      qed
    qed
    have cons: "2 * filled (?e # ts) + abs_resting ?m1 q1 + unat (qty (?m1 ib)) =
       abs_resting (pool_arr (pool s)) q + unat (qty (pool_arr (pool s) ib))"
      using p11 ar uq rle by (simp add: filled_def m_def)
    have oq: "q1 (\<not> sd) = q (\<not> sd)" using p5 by simp
    have ol1: "\<forall>t. level_at (book s1) (\<not> sd, t) = level_at (book s) (\<not> sd, t)"
      using p6 ol by simp
    have ot1: "tracker_of (book s1) (\<not> sd) = tracker_of (book s) (\<not> sd)"
      using p7 ot by simp
    have lg1: "trade_log s1 = trade_log s @ ?e # ts" using p2 lg by simp
    have te1: "trades_executed s1 = trades_executed s + word_of_nat (length (?e # ts))"
      using p3 te by simp
    show ?thesis
      unfolding match_post_def
      by (intro conjI p1 lg1 te1 st1[unfolded m_def] oq ol1 ot1 allI fifo ord each cons)
  qed
  from ex fl' dec st comp show ?thesis by blast
qed

lemma match_post_partial:
  fixes s q ib sd t r rest fp
  defines "m \<equiv> pool_arr (pool s)"
  assumes fl: "in_flight s q ib" and t: "t < NUM_TICKS" "unat fp = t" and q: "q sd t = r # rest"
    and lt: "qty (m ib) < qty (m r)" and pos: "0 < qty (m ib)"
    and lim: "within_limit sd (price (m ib)) fp"
  shows "\<exists>s'. executeTrade s ib (Some r) (sd, t) fp sd = Some s' \<and>
           qty (pool_arr (pool s') ib) = 0 \<and>
           match_post sd s q ib s' q [mk_trade m ib r fp (qty (m ib))]"
proof -
  let ?e = "mk_trade m ib r fp (qty (m ib))"
  from executeTrade_partial[OF fl t(1) q lt[unfolded m_def], folded m_def, of fp] obtain s' where
    ex: "executeTrade s ib (Some r) (sd, t) fp sd = Some s'"
    and fl': "in_flight s' q ib"
    and lg: "trade_log s' = trade_log s @ [?e]"
    and te: "trades_executed s' = trades_executed s + 1"
    and qi: "qty (pool_arr (pool s') ib) = 0"
    and qr: "qty (pool_arr (pool s') r) = qty (m r) - qty (m ib)"
    and qo: "\<forall>i. i \<noteq> ib \<and> i \<noteq> r \<longrightarrow> qty (pool_arr (pool s') i) = qty (m i)"
    and st: "static_fields (pool_arr (pool s')) m"
    and bk: "book s' = book s"
    by blast
  let ?m' = "pool_arr (pool s')"
  have ur: "unat (qty (?m' r)) = unat (qty (m r)) - unat (qty (m ib))"
    using lt by (simp add: qr unat_sub less_imp_le)
  have lt': "unat (qty (m ib)) < unat (qty (m r))" using lt by (simp add: word_less_nat_alt)
  have ar: "abs_resting ?m' q + unat (qty (m r)) = abs_resting m q + unat (qty (?m' r))"
    unfolding m_def by (rule abs_resting_partial[OF fl t(1) q qo[unfolded m_def]])
  have fifo: "fifo_consumed (q sd t') (fills_at t' [?e]) (q sd t')" for t'
  proof (cases "t' = t")
    case True
    then show ?thesis using q t(2) by (simp add: fills_at_def fifo_consumed_partial)
  next
    case False
    then show ?thesis using t(2) by (simp add: fills_at_def fifo_consumed_refl)
  qed
  have cons: "2 * filled [?e] + abs_resting ?m' q + unat (qty (?m' ib)) =
       abs_resting m q + unat (qty (m ib))"
    using ar ur lt' by (simp add: filled_def qi)
  have "match_post sd s q ib s' q [?e]"
    unfolding match_post_def
    using fl' lg te st bk fifo cons q t(2) lim pos
    by (simp add: m_def price_ordered_def)
  with ex qi show ?thesis by blast
qed

subsection \<open>The matching loops terminate and meet their postcondition\<close>

lemma in_flight_levels:
  assumes "in_flight s q ib"
  shows "summary_consistent (tracker_of (book s) sd)"
    and "t < NUM_TICKS \<Longrightarrow> tick_bit (tracker_of (book s) sd) t \<longleftrightarrow> q sd t \<noteq> []"
    and "q sd t \<noteq> [] \<Longrightarrow> t < NUM_TICKS"
    and "t < NUM_TICKS \<Longrightarrow> head (level_at (book s) (sd, t)) =
           (case q sd t of [] \<Rightarrow> None | x # _ \<Rightarrow> Some x)"
proof -
  note d = in_flightD[OF assms]
  show "summary_consistent (tracker_of (book s) sd)" using d(2) by (simp add: levels_ok_def)
  show "t < NUM_TICKS \<Longrightarrow> tick_bit (tracker_of (book s) sd) t \<longleftrightarrow> q sd t \<noteq> []"
    using d(2) by (simp add: levels_ok_def)
  show "q sd t \<noteq> [] \<Longrightarrow> t < NUM_TICKS" using d(2) by (rule levels_ok_active_lt)
  show "t < NUM_TICKS \<Longrightarrow> head (level_at (book s) (sd, t)) =
           (case q sd t of [] \<Rightarrow> None | x # _ \<Rightarrow> Some x)"
    using levels_okD(1)[OF d(2), of t sd] by (rule level_ok_head)
qed

lemma word_not_gt0: "\<not> 0 < (x :: 32 word) \<Longrightarrow> x = 0"
  by (simp add: word_neq_0_conv[symmetric])

lemma matchBuyOrder_total:
  assumes "in_flight s q ib"
  shows "\<exists>s1 q1 ts. matchBuyOrder s ib = Some s1 \<and> match_post False s q ib s1 q1 ts \<and>
           (qty (pool_arr (pool s1) ib) = 0 \<or>
            (\<forall>t. q1 False t \<noteq> [] \<longrightarrow> unat (price (pool_arr (pool s) ib)) < t))"
  using assms
proof (induction "unat (qty (pool_arr (pool s) ib))" arbitrary: s q rule: less_induct)
  case less
  let ?m = "pool_arr (pool s)"
  note fl = less.prems
  note lv = in_flight_levels[OF fl, where sd = False, unfolded tracker_of_def level_at_def, simplified]
  show ?case
  proof (cases "0 < qty (?m ib)")
    case False
    then have "matchBuyOrder s ib = Some s" by (subst matchBuyOrder.simps) simp
    moreover have "qty (?m ib) = 0" using False by (rule word_not_gt0)
    ultimately show ?thesis using match_post_refl[OF fl] by blast
  next
    case pos: True
    show ?thesis
    proof (cases "\<forall>t<NUM_TICKS. q False t = []")
      case True
      then have "\<forall>t<NUM_TICKS. \<not> tick_bit (ask_tracker (book s)) t" using lv(2) by simp
      from getBestAsk_empty[OF lv(1) this]
      have "matchBuyOrder s ib = Some s" by (subst matchBuyOrder.simps) simp
      moreover have "\<forall>t. q False t = []" using True lv(3) by blast
      ultimately show ?thesis using match_post_refl[OF fl] by blast
    next
      case False
      then obtain t0 where "t0 < NUM_TICKS" "tick_bit (ask_tracker (book s)) t0"
        using lv(2) by auto
      from getBestAsk_lowest[OF lv(1) this] obtain a where
        ga: "getBestAsk (ask_tracker (book s)) = Some a" and a: "unat a < NUM_TICKS"
        and act: "tick_bit (ask_tracker (book s)) (unat a)"
        and low: "\<forall>t<unat a. \<not> tick_bit (ask_tracker (book s)) t" by blast
      have ne: "a \<noteq> MAX_PRICE_TICKS" using a by (auto simp: NUM_TICKS_def)
      have best: "best_tick False q (unat a)"
        unfolding best_tick_def
      proof (intro allI impI)
        fix t' assume q': "q False t' \<noteq> []"
        then have "t' < NUM_TICKS" by (rule lv(3))
        with q' lv(2) low show "if False then t' \<le> unat a else unat a \<le> t'"
          by (auto simp: not_less[symmetric])
      qed
      show ?thesis
      proof (cases "price (?m ib) < a")
        case True
        then have "matchBuyOrder s ib = Some s"
          by (subst matchBuyOrder.simps) (simp add: ga)
        moreover have "\<forall>t. q False t \<noteq> [] \<longrightarrow> unat (price (?m ib)) < t"
        proof (intro allI impI)
          fix t assume "q False t \<noteq> []"
          with best have "unat a \<le> t" by (simp add: best_tick_def)
          with True show "unat (price (?m ib)) < t" by (simp add: word_less_nat_alt)
        qed
        ultimately show ?thesis using match_post_refl[OF fl] by blast
      next
        case nlt: False
        then have lim: "within_limit False (price (?m ib)) a"
          by (simp add: within_limit_def)
        from act lv(2)[OF a] obtain r rest where q: "q False (unat a) = r # rest"
          by (cases "q False (unat a)") auto
        have hd: "head (asks (book s) (unat a)) = Some r" using lv(4)[OF a] q by simp
        show ?thesis
        proof (cases "qty (?m r) \<le> qty (?m ib)")
          case True
          from match_post_full[OF fl a refl q True best lim] obtain s' where
            ex: "executeTrade s ib (Some r) (False, unat a) a False = Some s'"
            and fl': "in_flight s' (q(False := (q False)(unat a := rest))) ib"
            and dec: "unat (qty (pool_arr (pool s') ib)) < unat (qty (?m ib))"
            and st: "static_fields (pool_arr (pool s')) ?m"
            and comp: "\<And>s1 q1 ts.
               match_post False s' (q(False := (q False)(unat a := rest))) ib s1 q1 ts \<Longrightarrow>
               match_post False s q ib s1 q1 (mk_trade ?m ib r a (qty (?m r)) # ts)"
            by blast
          have unf: "matchBuyOrder s ib = matchBuyOrder s' ib"
            by (subst matchBuyOrder.simps) (simp add: pos ga nlt ne hd ex)
          from less.hyps[OF dec fl'] obtain s1 q1 ts where
            r1: "matchBuyOrder s' ib = Some s1"
            and r2: "match_post False s' (q(False := (q False)(unat a := rest))) ib s1 q1 ts"
            and r3: "qty (pool_arr (pool s1) ib) = 0 \<or>
               (\<forall>t. q1 False t \<noteq> [] \<longrightarrow> unat (price (pool_arr (pool s') ib)) < t)"
            by blast
          have "price (pool_arr (pool s') ib) = price (?m ib)" using st by (rule static_fieldsD)
          with r3 have "qty (pool_arr (pool s1) ib) = 0 \<or>
               (\<forall>t. q1 False t \<noteq> [] \<longrightarrow> unat (price (?m ib)) < t)" by simp
          with unf r1 comp[OF r2] show ?thesis by auto
        next
          case False
          then have lt: "qty (?m ib) < qty (?m r)" by simp
          from match_post_partial[OF fl a refl q lt pos lim] obtain s' where
            ex: "executeTrade s ib (Some r) (False, unat a) a False = Some s'"
            and z: "qty (pool_arr (pool s') ib) = 0"
            and mp: "match_post False s q ib s' q [mk_trade ?m ib r a (qty (?m ib))]"
            by blast
          have "matchBuyOrder s ib = matchBuyOrder s' ib"
            by (subst matchBuyOrder.simps) (simp add: pos ga nlt ne hd ex)
          also have "\<dots> = Some s'" by (subst matchBuyOrder.simps) (simp add: z)
          finally show ?thesis using mp z by blast
        qed
      qed
    qed
  qed
qed

lemma matchSellOrder_total:
  assumes "in_flight s q ib"
  shows "\<exists>s1 q1 ts. matchSellOrder s ib = Some s1 \<and> match_post True s q ib s1 q1 ts \<and>
           (qty (pool_arr (pool s1) ib) = 0 \<or>
            (\<forall>t. q1 True t \<noteq> [] \<longrightarrow> t < unat (price (pool_arr (pool s) ib)) \<or> t = 0))"
  using assms
proof (induction "unat (qty (pool_arr (pool s) ib))" arbitrary: s q rule: less_induct)
  case less
  let ?m = "pool_arr (pool s)"
  note fl = less.prems
  note lv = in_flight_levels[OF fl, where sd = True, unfolded tracker_of_def level_at_def, simplified]
  show ?case
  proof (cases "0 < qty (?m ib)")
    case False
    then have "matchSellOrder s ib = Some s" by (subst matchSellOrder.simps) simp
    moreover have "qty (?m ib) = 0" using False by (rule word_not_gt0)
    ultimately show ?thesis using match_post_refl[OF fl] by blast
  next
    case pos: True
    show ?thesis
    proof (cases "\<forall>t<NUM_TICKS. q True t = []")
      case True
      then have "\<forall>t<NUM_TICKS. \<not> tick_bit (bid_tracker (book s)) t" using lv(2) by simp
      from getBestBid_empty[OF lv(1) this]
      have "matchSellOrder s ib = Some s" by (subst matchSellOrder.simps) simp
      moreover have "\<forall>t. q True t = []" using True lv(3) by blast
      ultimately show ?thesis using match_post_refl[OF fl] by blast
    next
      case False
      then obtain t0 where "t0 < NUM_TICKS" "tick_bit (bid_tracker (book s)) t0"
        using lv(2) by auto
      from getBestBid_highest[OF lv(1) this] obtain a where
        ga: "getBestBid (bid_tracker (book s)) = Some a" and a: "unat a < NUM_TICKS"
        and act: "tick_bit (bid_tracker (book s)) (unat a)"
        and high: "\<forall>t. unat a < t \<and> t < NUM_TICKS \<longrightarrow> \<not> tick_bit (bid_tracker (book s)) t"
        by blast
      have best: "best_tick True q (unat a)"
        unfolding best_tick_def
      proof (intro allI impI)
        fix t' assume q': "q True t' \<noteq> []"
        then have "t' < NUM_TICKS" by (rule lv(3))
        with q' lv(2) high show "if True then t' \<le> unat a else unat a \<le> t'"
          by (auto simp: not_less[symmetric])
      qed
      show ?thesis
      proof (cases "a < price (?m ib) \<or> a = 0")
        case True
        then have "matchSellOrder s ib = Some s"
          by (subst matchSellOrder.simps) (auto simp add: ga)
        moreover have "\<forall>t. q True t \<noteq> [] \<longrightarrow> t < unat (price (?m ib)) \<or> t = 0"
        proof (intro allI impI)
          fix t assume "q True t \<noteq> []"
          with best have "t \<le> unat a" by (simp add: best_tick_def)
          with True show "t < unat (price (?m ib)) \<or> t = 0"
            by (auto simp: word_less_nat_alt)
        qed
        ultimately show ?thesis using match_post_refl[OF fl] by blast
      next
        case stop: False
        then have lim: "within_limit True (price (?m ib)) a"
          by (simp add: within_limit_def not_less)
        from act lv(2)[OF a] obtain r rest where q: "q True (unat a) = r # rest"
          by (cases "q True (unat a)") auto
        have hd: "head (bids (book s) (unat a)) = Some r" using lv(4)[OF a] q by simp
        show ?thesis
        proof (cases "qty (?m r) \<le> qty (?m ib)")
          case True
          from match_post_full[OF fl a refl q True best lim] obtain s' where
            ex: "executeTrade s ib (Some r) (True, unat a) a True = Some s'"
            and fl': "in_flight s' (q(True := (q True)(unat a := rest))) ib"
            and dec: "unat (qty (pool_arr (pool s') ib)) < unat (qty (?m ib))"
            and st: "static_fields (pool_arr (pool s')) ?m"
            and comp: "\<And>s1 q1 ts.
               match_post True s' (q(True := (q True)(unat a := rest))) ib s1 q1 ts \<Longrightarrow>
               match_post True s q ib s1 q1 (mk_trade ?m ib r a (qty (?m r)) # ts)"
            by blast
          have unf: "matchSellOrder s ib = matchSellOrder s' ib"
            using stop by (subst matchSellOrder.simps) (simp add: pos ga hd ex)
          from less.hyps[OF dec fl'] obtain s1 q1 ts where
            r1: "matchSellOrder s' ib = Some s1"
            and r2: "match_post True s' (q(True := (q True)(unat a := rest))) ib s1 q1 ts"
            and r3: "qty (pool_arr (pool s1) ib) = 0 \<or>
               (\<forall>t. q1 True t \<noteq> [] \<longrightarrow> t < unat (price (pool_arr (pool s') ib)) \<or> t = 0)"
            by blast
          have "price (pool_arr (pool s') ib) = price (?m ib)" using st by (rule static_fieldsD)
          with r3 have "qty (pool_arr (pool s1) ib) = 0 \<or>
               (\<forall>t. q1 True t \<noteq> [] \<longrightarrow> t < unat (price (?m ib)) \<or> t = 0)" by simp
          with unf r1 comp[OF r2] show ?thesis by auto
        next
          case False
          then have lt: "qty (?m ib) < qty (?m r)" by simp
          from match_post_partial[OF fl a refl q lt pos lim] obtain s' where
            ex: "executeTrade s ib (Some r) (True, unat a) a True = Some s'"
            and z: "qty (pool_arr (pool s') ib) = 0"
            and mp: "match_post True s q ib s' q [mk_trade ?m ib r a (qty (?m ib))]"
            by blast
          have "matchSellOrder s ib = matchSellOrder s' ib"
            using stop by (subst matchSellOrder.simps) (simp add: pos ga hd ex)
          also have "\<dots> = Some s'" by (subst matchSellOrder.simps) (simp add: z)
          finally show ?thesis using mp z by blast
        qed
      qed
    qed
  qed
qed

subsection \<open>Resting, allocating and releasing the inbound order\<close>

lemma addOrder_unfold:
  "addOrder bk m ord =
     (let pr = price (m ord); sd = is_buy (m ord) in
      if MAX_PRICE_TICKS \<le> pr then None
      else do {
        tr \<leftarrow> (if isEmpty (level_at bk (sd, unat pr)) then setPriceLevel (tracker_of bk sd) pr
               else Some (tracker_of bk sd));
        (m', l') \<leftarrow> push_back m (level_at bk (sd, unat pr)) ord;
        Some (tracker_upd (level_upd bk (sd, unat pr) l') sd tr, m')
      })"
  by (cases "is_buy (m ord)")
     (auto simp: addOrder_def Let_def level_at_def level_upd_def tracker_of_def tracker_upd_def
        split: Option.bind_split prod.splits)

lemma levels_ok_push:
  assumes ok: "levels_ok bk m q" and t: "t < NUM_TICKS" and fp: "unat fp = t"
    and l': "level_ok m' l' (q sd t @ [ib])"
    and m': "\<And>sd' t' i. i \<in> set (q sd' t') \<Longrightarrow> (sd', t') \<noteq> (sd, t) \<Longrightarrow> next (m' i) = next (m i)"
    and tr: "if q sd t = [] then setPriceLevel (tracker_of bk sd) fp = Some tr'
             else tr' = tracker_of bk sd"
  shows "levels_ok (tracker_upd (level_upd bk (sd, t) l') sd tr') m'
           (q(sd := (q sd)(t := q sd t @ [ib])))"
    (is "levels_ok ?bk m' ?q")
  unfolding levels_ok_def
proof (intro conjI allI impI)
  fix sd'
  show "summary_consistent (tracker_of ?bk sd')"
    using levels_okD(3)[OF ok t] tr summary_consistent_set[of "tracker_of bk sd" fp tr']
    by (auto simp: tracker_of_tracker_upd split: if_splits)
next
  fix sd' t' assume "NUM_TICKS \<le> t'"
  with ok t show "?q sd' t' = []" by (auto simp: levels_ok_def)
next
  fix sd' t' assume t': "t' < NUM_TICKS"
  show "level_ok m' (level_at ?bk (sd', t')) (?q sd' t')"
  proof (cases "(sd', t') = (sd, t)")
    case True
    then show ?thesis using l' by (simp add: level_at_upd)
  next
    case False
    have "level_ok m' (level_at bk (sd', t')) (q sd' t') = level_ok m (level_at bk (sd', t')) (q sd' t')"
      by (rule level_ok_next_cong) (rule m'[OF _ False])
    with levels_okD(1)[OF ok t', of sd'] False show ?thesis
      by (auto simp: level_at_upd)
  qed
next
  fix sd' t' assume t': "t' < NUM_TICKS"
  have old: "tick_bit (tracker_of bk sd') t' \<longleftrightarrow> q sd' t' \<noteq> []"
    by (rule levels_okD(2)[OF ok t'])
  show "tick_bit (tracker_of ?bk sd') t' \<longleftrightarrow> ?q sd' t' \<noteq> []"
  proof (cases "q sd t = []")
    case True
    with tr have "setPriceLevel (tracker_of bk sd) fp = Some tr'" by simp
    from setPriceLevel_tick_bit[OF this, of t'] fp old
    show ?thesis by (auto simp: tracker_of_tracker_upd)
  next
    case False
    with tr have "tr' = tracker_of bk sd" by simp
    with old False levels_okD(2)[OF ok t, of sd] show ?thesis
      by (auto simp: tracker_of_tracker_upd)
  qed
qed

lemma unat_price_lt: "pr < MAX_PRICE_TICKS \<Longrightarrow> unat pr < NUM_TICKS"
  by (simp add: NUM_TICKS_def word_less_nat_alt)

lemma addOrder_ok:
  fixes s q ib
  defines "m \<equiv> pool_arr (pool s)"
  defines "sd \<equiv> is_buy (m ib)" and "t \<equiv> unat (price (m ib))"
  assumes fl: "in_flight s q ib" and pos: "0 < qty (m ib)" and pr: "price (m ib) < MAX_PRICE_TICKS"
  shows "\<exists>bk' m'. addOrder (book s) m ib = Some (bk', m') \<and>
           book_abs (s\<lparr>book := bk', pool := (pool s)\<lparr>pool_arr := m'\<rparr>\<rparr>)
             (q(sd := (q sd)(t := q sd t @ [ib]))) \<and>
           abs_resting m' (q(sd := (q sd)(t := q sd t @ [ib]))) =
             abs_resting m q + unat (qty (m ib)) \<and>
           (\<forall>t'. level_at bk' (\<not> sd, t') = level_at (book s) (\<not> sd, t')) \<and>
           tracker_of bk' (\<not> sd) = tracker_of (book s) (\<not> sd)"
proof -
  let ?q = "q(sd := (q sd)(t := q sd t @ [ib]))"
  note d = in_flightD[OF fl, folded m_def]
  have t: "t < NUM_TICKS" unfolding t_def using pr by (rule unat_price_lt)
  have lok: "level_ok m (level_at (book s) (sd, t)) (q sd t)" by (rule levels_okD(1)[OF d(2) t])
  from push_back_ok[OF lok d(6) d(7)] obtain m' l' where
    pb: "push_back m (level_at (book s) (sd, t)) ib = Some (m', l')"
    and l': "level_ok m' l' (q sd t @ [ib])"
    and fr: "\<forall>i. i \<noteq> ib \<longrightarrow> (q sd t = [] \<or> i \<noteq> last (q sd t)) \<longrightarrow> m' i = m i"
    and fld: "\<forall>i. qty (m' i) = qty (m i) \<and> price (m' i) = price (m i) \<and>
                is_buy (m' i) = is_buy (m i) \<and> id_fld (m' i) = id_fld (m i)"
    by blast
  define tr' where "tr' = (if q sd t = [] then the (setPriceLevel (tracker_of (book s) sd) (price (m ib)))
                           else tracker_of (book s) sd)"
  have emp: "isEmpty (level_at (book s) (sd, t)) \<longleftrightarrow> q sd t = []"
    by (rule level_ok_empty_iff[OF lok])
  from setPriceLevel_defined[OF pr, of "tracker_of (book s) sd"] obtain t1 where
    t1: "setPriceLevel (tracker_of (book s) sd) (price (m ib)) = Some t1" by blast
  have tr: "if q sd t = [] then setPriceLevel (tracker_of (book s) sd) (price (m ib)) = Some tr'
            else tr' = tracker_of (book s) sd"
    using t1 by (simp add: tr'_def)
  have tro: "(if isEmpty (level_at (book s) (sd, t))
              then setPriceLevel (tracker_of (book s) sd) (price (m ib))
              else Some (tracker_of (book s) sd)) = Some tr'"
    using tr by (simp add: emp split: if_splits)
  define bk' where "bk' = tracker_upd (level_upd (book s) (sd, t) l') sd tr'"
  have ao: "addOrder (book s) m ib = Some (bk', m')"
    using pr pb tro
    by (simp add: addOrder_unfold Let_def sd_def[symmetric] t_def[symmetric] bk'_def not_le[symmetric])
  have nx: "next (m' i) = next (m i)" if "i \<in> set (q sd' t')" "(sd', t') \<noteq> (sd, t)" for sd' t' i
  proof -
    have "i \<noteq> ib" using d(6)[of sd' t'] that(1) by auto
    moreover have "q sd t = [] \<or> i \<noteq> last (q sd t)"
    proof (cases "q sd t = []")
      case False
      then have "last (q sd t) \<in> set (q sd t)" by simp
      from orders_ok_other_level[OF d(3) this, of sd' t'] that show ?thesis by auto
    qed simp
    ultimately have "m' i = m i" using fr by blast
    then show ?thesis by simp
  qed
  have lv': "levels_ok bk' m' ?q"
    unfolding bk'_def
    by (rule levels_ok_push[OF d(2) t _ l' nx tr]) (simp_all add: t_def)
  have oo': "orders_ok m' (free_slots (pool s)) ?q"
    unfolding orders_ok_def
  proof (intro allI ballI)
    fix sd' t' i assume i: "i \<in> set (?q sd' t')"
    show "i < MAX_ORDERS \<and> i \<notin> free_slots (pool s) \<and>
        is_buy (m' i) = sd' \<and> unat (price (m' i)) = t' \<and> 0 < qty (m' i)"
    proof (cases "i \<in> set (q sd' t')")
      case True
      from orders_okD[OF d(3) True] fld show ?thesis by simp
    next
      case False
      with i have "i = ib \<and> sd' = sd \<and> t' = t" by (auto split: if_splits)
      with d(4,5) pos fld show ?thesis by (simp add: sd_def t_def)
    qed
  qed
  have ba: "book_abs (s\<lparr>book := bk', pool := (pool s)\<lparr>pool_arr := m'\<rparr>\<rparr>) ?q"
    unfolding book_abs_def using d(1) lv' oo' by simp
  have ar: "abs_resting m' ?q = abs_resting m q + unat (qty (m ib))"
  proof -
    have lq: "level_qty m' xs = level_qty m xs" for xs
      by (rule level_qty_cong) (use fld in simp)
    have "abs_resting m' ?q + level_qty m (q sd t) = abs_resting m q + level_qty m' (?q sd t)"
    proof (rule abs_resting_one_level[OF t])
      fix sd' t' assume "(sd', t') \<noteq> (sd, t)"
      then have "?q sd' t' = q sd' t'" by auto
      then show "level_qty m' (?q sd' t') = level_qty m (q sd' t')" by (simp only: lq)
    qed
    then show ?thesis using fld by (simp add: lq)
  qed
  have oth: "\<forall>t'. level_at bk' (\<not> sd, t') = level_at (book s) (\<not> sd, t')"
    by (simp add: bk'_def level_at_upd)
  have otr: "tracker_of bk' (\<not> sd) = tracker_of (book s) (\<not> sd)"
    by (simp add: bk'_def tracker_of_tracker_upd)
  from ao ba ar oth otr show ?thesis by blast
qed

lemma allocate_in_flight:
  assumes ba: "book_abs s q" and fr: "0 < free_idx (pool s)"
  shows "\<exists>p' ib. allocate (pool s) i pr qy b = Some (Inr (p', ib)) \<and>
           in_flight (s\<lparr>pool := p'\<rparr>) q ib \<and>
           pool_arr p' ib = \<lparr>id_fld = i, price = pr, qty = qy, is_buy = b, prev = None, next = None\<rparr> \<and>
           (\<forall>j. j \<noteq> ib \<longrightarrow> pool_arr p' j = pool_arr (pool s) j) \<and>
           (\<forall>sd t. ib \<notin> set (q sd t))"
proof -
  let ?m = "pool_arr (pool s)"
  from ba have pk: "pool_ok (pool s)" and lv: "levels_ok (book s) ?m q"
    and oo: "orders_ok ?m (free_slots (pool s)) q" by (simp_all add: book_abs_def)
  from allocate_ok[OF pk fr, of i pr qy b] obtain p' ib where
    al: "allocate (pool s) i pr qy b = Some (Inr (p', ib))" and pk': "pool_ok p'"
    and ib: "ib < MAX_ORDERS" "ib \<in> free_slots (pool s)"
    and fs: "free_slots p' = free_slots (pool s) - {ib}"
    and pa: "pool_arr p' = ?m(ib := \<lparr>id_fld = i, price = pr, qty = qy, is_buy = b,
                                              prev = None, next = None\<rparr>)"
    by blast
  have nq: "ib \<notin> set (q sd t)" for sd t
    using orders_okD(2)[OF oo, of ib sd t] ib(2) by blast
  have same: "pool_arr p' j = ?m j" if "j \<in> set (q sd t)" for j sd t
    using that nq[of sd t] by (auto simp: pa)
  have lv': "levels_ok (book s) (pool_arr p') q"
    by (rule levels_ok_next_cong[OF lv]) (simp add: same)
  have oo': "orders_ok (pool_arr p') (free_slots p') q"
    unfolding orders_ok_def
  proof (intro allI ballI)
    fix sd t j assume j: "j \<in> set (q sd t)"
    from orders_okD[OF oo j] same[OF j] show "j < MAX_ORDERS \<and> j \<notin> free_slots p' \<and>
        is_buy (pool_arr p' j) = sd \<and> unat (price (pool_arr p' j)) = t \<and> 0 < qty (pool_arr p' j)"
      by (simp add: fs)
  qed
  have "in_flight (s\<lparr>pool := p'\<rparr>) q ib"
    unfolding in_flight_def book_abs_def
    using pk' lv' oo' ib(1) nq by (simp add: fs pa)
  with al nq show ?thesis by (auto simp: pa)
qed

lemma deallocate_in_flight:
  assumes fl: "in_flight s q ib"
  shows "\<exists>p'. deallocate (pool s) ib = Some p' \<and> book_abs (s\<lparr>pool := p'\<rparr>) q \<and>
              pool_arr p' = pool_arr (pool s)"
proof -
  note d = in_flightD[OF fl]
  from deallocate_ok[OF d(1,4,5)] obtain p' where
    de: "deallocate (pool s) ib = Some p'" and pk': "pool_ok p'"
    and fs: "free_slots p' = insert ib (free_slots (pool s))"
    and pa: "pool_arr p' = pool_arr (pool s)" by blast
  have "orders_ok (pool_arr (pool s)) (insert ib (free_slots (pool s))) q"
    unfolding orders_ok_def
  proof (intro allI ballI)
    fix sd t j assume j: "j \<in> set (q sd t)"
    then have "j \<noteq> ib" using d(6)[of sd t] by auto
    with orders_okD[OF d(3) j] show "j < MAX_ORDERS \<and> j \<notin> insert ib (free_slots (pool s)) \<and>
        is_buy (pool_arr (pool s) j) = sd \<and> unat (price (pool_arr (pool s) j)) = t \<and>
        0 < qty (pool_arr (pool s) j)" by simp
  qed
  then have "book_abs (s\<lparr>pool := p'\<rparr>) q"
    unfolding book_abs_def using pk' d(2) by (simp add: fs pa)
  with de pa show ?thesis by blast
qed

subsection \<open>One call of processNewOrder\<close>

lemma fifo_consumed_subset: "fifo_consumed q0 c q1 \<Longrightarrow> set c \<subseteq> set q0"
proof -
  assume a: "fifo_consumed q0 c q1"
  show ?thesis
  proof (cases "q0 = c @ q1")
    case True then show ?thesis by auto
  next
    case False
    with a have c: "c \<noteq> []" "q1 \<noteq> []" "last c = hd q1" "q0 = butlast c @ q1"
      by (auto simp: fifo_consumed_def)
    have "set c = set (butlast c @ [last c])" using c(1) by simp
    also have "\<dots> \<subseteq> set q0" using c by (auto simp: in_set_butlastD)
    finally show ?thesis .
  qed
qed

lemma fills_at_mem: "e \<in> set ts \<Longrightarrow> resting_slot e \<in> set (fills_at (trade_tick e) ts)"
  by (auto simp: fills_at_def)

lemma addOrder_out_of_range:
  "\<not> price (m ord) < MAX_PRICE_TICKS \<Longrightarrow> addOrder bk m ord = None"
  by (simp add: addOrder_def Let_def not_less)

lemma processNewOrder_post:
  assumes ba: "book_abs s q" and fr: "0 < free_idx (pool s)"
  shows "(\<exists>s' q' ts. processNewOrder s i pr qy b = Some (Inr s') \<and> call_post s q i pr qy b s' q' ts) \<or>
         (processNewOrder s i pr qy b = None \<and> \<not> pr < MAX_PRICE_TICKS)"
proof -
  from allocate_in_flight[OF ba fr, of i pr qy b] obtain p' ib where
    al: "allocate (pool s) i pr qy b = Some (Inr (p', ib))"
    and fl0: "in_flight (s\<lparr>pool := p'\<rparr>) q ib"
    and new: "pool_arr p' ib = \<lparr>id_fld = i, price = pr, qty = qy, is_buy = b, prev = None,
                                 next = None\<rparr>"
    and old: "\<forall>j. j \<noteq> ib \<longrightarrow> pool_arr p' j = (pool_arr (pool s)) j"
    and nq: "\<forall>sd t. ib \<notin> set (q sd t)" by blast
  let ?s0 = "s\<lparr>pool := p'\<rparr>"
  let ?m0 = "pool_arr p'"
  have "\<exists>s1 q1 ts. (if b then matchBuyOrder ?s0 ib else matchSellOrder ?s0 ib) = Some s1 \<and>
          match_post (\<not> b) ?s0 q ib s1 q1 ts \<and>
          (qty (pool_arr (pool s1) ib) = 0 \<or> out_of_reach b (unat pr) q1)"
    using matchBuyOrder_total[OF fl0] matchSellOrder_total[OF fl0] new
    by (cases b) (auto simp: out_of_reach_def)
  then obtain s1 q1 ts where
    lp: "(if b then matchBuyOrder ?s0 ib else matchSellOrder ?s0 ib) = Some s1"
    and mp: "match_post (\<not> b) ?s0 q ib s1 q1 ts"
    and stop: "qty (pool_arr (pool s1) ib) = 0 \<or> out_of_reach b (unat pr) q1" by blast
  let ?m1 = "pool_arr (pool s1)"
  note p = mp[unfolded match_post_def]
  note p1 = p[THEN conjunct1]
  note p2 = p[THEN conjunct2, THEN conjunct1]
  note p3 = p[THEN conjunct2, THEN conjunct2, THEN conjunct1]
  note p4 = p[THEN conjunct2, THEN conjunct2, THEN conjunct2, THEN conjunct1]
  note r4 = p[THEN conjunct2, THEN conjunct2, THEN conjunct2, THEN conjunct2]
  note p5 = r4[THEN conjunct1]
  note p8 = r4[THEN conjunct2, THEN conjunct2, THEN conjunct2, THEN conjunct1]
  note r8 = r4[THEN conjunct2, THEN conjunct2, THEN conjunct2, THEN conjunct2]
  note p9 = r8[THEN conjunct1]
  note p10 = r8[THEN conjunct2, THEN conjunct1]
  note p11 = r8[THEN conjunct2, THEN conjunct2]
  have q1b: "q1 b = q b" using p5 by simp
  have pr1: "price (?m1 ib) = pr" and sd1: "is_buy (?m1 ib) = b"
    using static_fieldsD(1,2)[OF p4, of ib] new by simp_all
  have ar0: "abs_resting ?m0 q = abs_resting (pool_arr (pool s)) q"
  proof (rule abs_resting_cong, rule level_qty_cong)
    fix sd t j assume "j \<in> set (q sd t)"
    with nq have "j \<noteq> ib" by blast
    with old show "qty (?m0 j) = qty ((pool_arr (pool s)) j)" by simp
  qed
  have each: "\<forall>e\<in>set ts. q (\<not> b) (trade_tick e) \<noteq> [] \<and>
        within_limit (\<not> b) pr (trade_price e) \<and> inbound_id e = i \<and>
        resting_id e = id_fld ((pool_arr (pool s)) (resting_slot e)) \<and> 0 < trade_qty e"
  proof
    fix e assume e: "e \<in> set ts"
    from p8 have "fifo_consumed (q (\<not> b) (trade_tick e)) (fills_at (trade_tick e) ts)
                   (q1 (\<not> b) (trade_tick e))" by blast
    from fifo_consumed_subset[OF this] fills_at_mem[OF e]
    have "resting_slot e \<in> set (q (\<not> b) (trade_tick e))" by blast
    with nq have "resting_slot e \<noteq> ib" by auto
    with old have "?m0 (resting_slot e) = (pool_arr (pool s)) (resting_slot e)" by simp
    with p10 e new show "q (\<not> b) (trade_tick e) \<noteq> [] \<and>
        within_limit (\<not> b) pr (trade_price e) \<and> inbound_id e = i \<and>
        resting_id e = id_fld ((pool_arr (pool s)) (resting_slot e)) \<and> 0 < trade_qty e" by auto
  qed
  have cons1: "2 * filled ts + abs_resting ?m1 q1 + unat (qty (?m1 ib)) =
          abs_resting (pool_arr (pool s)) q + unat qy"
    using p11 ar0 new by simp
  have lg: "trade_log s1 = trade_log s @ ts" using p2 by simp
  have te: "trades_executed s1 = trades_executed s + word_of_nat (length ts)" using p3 by simp
  show ?thesis
  proof (cases "0 < qty (?m1 ib)")
    case pos: True
    show ?thesis
    proof (cases "pr < MAX_PRICE_TICKS")
      case True
      from addOrder_ok[OF p1 pos] True pr1 sd1 obtain bk' m' where
        ao: "addOrder (book s1) ?m1 ib = Some (bk', m')"
        and ba': "book_abs (s1\<lparr>book := bk', pool := (pool s1)\<lparr>pool_arr := m'\<rparr>\<rparr>)
                    (q1(b := (q1 b)(unat pr := q1 b (unat pr) @ [ib])))"
        and ar': "abs_resting m' (q1(b := (q1 b)(unat pr := q1 b (unat pr) @ [ib]))) =
                    abs_resting ?m1 q1 + unat (qty (?m1 ib))"
        by auto
      let ?s' = "s1\<lparr>book := bk', pool := (pool s1)\<lparr>pool_arr := m'\<rparr>\<rparr>"
      let ?q' = "q1(b := (q1 b)(unat pr := q1 b (unat pr) @ [ib]))"
      have res: "processNewOrder s i pr qy b = Some (Inr ?s')"
        using al lp pos ao by (simp add: processNewOrder_def)
      have "out_of_reach b (unat pr) q1" using stop pos by auto
      then have oor: "out_of_reach b (unat pr) ?q'"
        by (cases b) (simp_all add: out_of_reach_def)
      have own: "\<exists>new. ?q' b = (q b)(unat pr := q b (unat pr) @ new) \<and> length new \<le> 1 \<and>
                  (new \<noteq> [] \<longrightarrow> out_of_reach b (unat pr) ?q')"
        by (rule exI[of _ "[ib]"]) (use oor in \<open>simp add: q1b\<close>)
      have fifo: "\<forall>t. fifo_consumed (q (\<not> b) t) (fills_at t ts) (?q' (\<not> b) t)"
        using p8 by simp
      have cons: "2 * filled ts + abs_resting (pool_arr (pool ?s')) ?q' =
           abs_resting (pool_arr (pool s)) q + unat qy"
        using cons1 ar' by simp
      have "call_post s q i pr qy b ?s' ?q' ts"
        unfolding call_post_def
        apply (intro conjI)
        subgoal by (rule ba')
        subgoal by (simp add: lg)
        subgoal by (simp add: te)
        subgoal by (rule fifo)
        subgoal by (rule p9)
        subgoal by (rule each)
        subgoal by (rule own)
        subgoal by (rule cons)
        done
      with res show ?thesis by blast
    next
      case False
      then have "addOrder (book s1) ?m1 ib = None"
        using pr1 by (simp add: addOrder_out_of_range)
      then have "processNewOrder s i pr qy b = None"
        using al lp pos by (simp add: processNewOrder_def)
      with False show ?thesis by blast
    qed
  next
    case False
    then have z: "qty (?m1 ib) = 0" by (rule word_not_gt0)
    from deallocate_in_flight[OF p1] obtain p'' where
      de: "deallocate (pool s1) ib = Some p''" and ba': "book_abs (s1\<lparr>pool := p''\<rparr>) q1"
      and pa: "pool_arr p'' = ?m1" by blast
    have res: "processNewOrder s i pr qy b = Some (Inr (s1\<lparr>pool := p''\<rparr>))"
      using al lp False de by (simp add: processNewOrder_def)
    have own: "\<exists>new. q1 b = (q b)(unat pr := q b (unat pr) @ new) \<and> length new \<le> 1 \<and>
                (new \<noteq> [] \<longrightarrow> out_of_reach b (unat pr) q1)"
      by (rule exI[of _ "[]"]) (simp add: q1b)
    have cons: "2 * filled ts + abs_resting (pool_arr (pool (s1\<lparr>pool := p''\<rparr>))) q1 =
           abs_resting (pool_arr (pool s)) q + unat qy"
      using cons1 z by (simp add: pa)
    have "call_post s q i pr qy b (s1\<lparr>pool := p''\<rparr>) q1 ts"
      unfolding call_post_def
    proof (intro conjI)
      show "book_abs (s1\<lparr>pool := p''\<rparr>) q1" by (rule ba')
      show "trade_log (s1\<lparr>pool := p''\<rparr>) = trade_log s @ ts" by (simp add: lg)
      show "trades_executed (s1\<lparr>pool := p''\<rparr>) =
              trades_executed s + word_of_nat (length ts)" by (simp add: te)
      show "\<forall>t. fifo_consumed (q (\<not> b) t) (fills_at t ts) (q1 (\<not> b) t)" by (rule p8)
      show "price_ordered (\<not> b) ts" by (rule p9)
      show "\<forall>e\<in>set ts. q (\<not> b) (trade_tick e) \<noteq> [] \<and>
        within_limit (\<not> b) pr (trade_price e) \<and> inbound_id e = i \<and>
        resting_id e = id_fld ((pool_arr (pool s)) (resting_slot e)) \<and> 0 < trade_qty e" by (rule each)
      show "\<exists>new. q1 b = (q b)(unat pr := q b (unat pr) @ new) \<and> length new \<le> 1 \<and>
                (new \<noteq> [] \<longrightarrow> out_of_reach b (unat pr) q1)"
        by (rule own)
      show "2 * filled ts + abs_resting (pool_arr (pool (s1\<lparr>pool := p''\<rparr>))) q1 =
           abs_resting (pool_arr (pool s)) q + unat qy" by (rule cons)
    qed
    with res show ?thesis by blast
  qed
qed

subsection \<open>Runs from the new engine\<close>

lemma side_queue_abs:
  assumes "book_abs s q" "t < NUM_TICKS"
  shows "side_queue s sd t = q sd t"
proof -
  from assms have "level_ok (pool_arr (pool s)) (level_at (book s) (sd, t)) (q sd t)"
    by (simp add: book_abs_def levels_ok_def)
  then have l: "linked (pool_arr (pool s)) (head (level_at (book s) (sd, t))) (q sd t)"
    by (simp add: level_ok_def)
  have "set (q sd t) \<subseteq> {..<MAX_ORDERS}"
    using assms(1) by (auto simp: book_abs_def orders_ok_def)
  from queue_of_linked[OF l this] show ?thesis by (simp add: side_queue_def)
qed

lemma resting_qty_abs:
  assumes "book_abs s q"
  shows "resting_qty s = abs_resting (pool_arr (pool s)) q"
  unfolding resting_qty_def abs_resting_def
  by (rule sum.cong) (simp_all add: side_queue_abs[OF assms])

lemma book_abs_new: "book_abs new_MatchingEngine (\<lambda>_ _. [])"
proof -
  have "inj_on (\<lambda>i. MAX_ORDERS - 1 - i) {..<MAX_ORDERS}"
    by (rule inj_onI) auto
  moreover have "(\<lambda>i. MAX_ORDERS - 1 - i) ` {..<MAX_ORDERS} \<subseteq> {..<MAX_ORDERS}"
    by (auto simp: MAX_ORDERS_def)
  ultimately have "pool_ok new_OrderPool"
    by (simp add: pool_ok_def new_OrderPool_def free_slots_def)
  moreover have "levels_ok new_OrderBook (\<lambda>_. zero_Order) (\<lambda>_ _. [])"
    using summary_consistent_new
    by (simp add: levels_ok_def new_OrderBook_def tracker_of_def level_at_def
        level_ok_def new_PriceLevel_def tick_bit_def new_FastPriceTracker_def)
  ultimately show ?thesis
    by (simp add: book_abs_def new_MatchingEngine_def orders_ok_def new_OrderPool_def)
qed

lemma processNewOrder_Inr:
  assumes ba: "book_abs s q" and r: "processNewOrder s i pr qy b = Some (Inr s')"
  shows "\<exists>q' ts. call_post s q i pr qy b s' q' ts"
proof -
  have "0 < free_idx (pool s)"
  proof (rule ccontr)
    assume "\<not> 0 < free_idx (pool s)"
    then have "processNewOrder s i pr qy b = Some (Inl (ArenaExhausted, s))"
      by (simp add: processNewOrder_def allocate_def)
    with r show False by simp
  qed
  from processNewOrder_post[OF ba this, of i pr qy b] r show ?thesis by auto
qed

lemma processNewOrder_returns:
  assumes "engine_inv s" "0 < free_idx (pool s)" "pr < MAX_PRICE_TICKS"
  shows "\<exists>s'. processNewOrder s i pr qy b = Some (Inr s') \<and> engine_inv s'"
proof -
  from assms(1) obtain q where ba: "book_abs s q" by (auto simp: engine_inv_def)
  from processNewOrder_post[OF ba assms(2), of i pr qy b] assms(3)
  show ?thesis by (auto simp: call_post_def engine_inv_def)
qed

lemma filled_append [simp]: "filled (xs @ ys) = filled xs + filled ys"
  by (simp add: filled_def)

lemma run_post:
  assumes "book_abs s q" "run s os = Some (Inr s')"
  shows "\<exists>q'. book_abs s' q' \<and>
           2 * filled (trade_log s') + abs_resting (pool_arr (pool s')) q' =
           2 * filled (trade_log s) + abs_resting (pool_arr (pool s)) q + submitted os"
  using assms
proof (induction os arbitrary: s q)
  case Nil
  then show ?case by (auto simp: submitted_def)
next
  case (Cons x os)
  obtain i pr qy b where x: "x = (i, pr, qy, b)" by (cases x) auto
  from Cons.prems(2) obtain s1 where
    s1: "processNewOrder s i pr qy b = Some (Inr s1)" and r: "run s1 os = Some (Inr s')"
    by (auto simp: x split: option.splits sum.splits)
  from processNewOrder_Inr[OF Cons.prems(1) s1] obtain q1 ts where
    cp: "call_post s q i pr qy b s1 q1 ts" by blast
  then have ba1: "book_abs s1 q1" and lg: "trade_log s1 = trade_log s @ ts"
    and c1: "2 * filled ts + abs_resting (pool_arr (pool s1)) q1 =
             abs_resting (pool_arr (pool s)) q + unat qy"
    by (simp_all add: call_post_def)
  from Cons.IH[OF ba1 r] obtain q' where
    ba': "book_abs s' q'" and c2: "2 * filled (trade_log s') + abs_resting (pool_arr (pool s')) q' =
           2 * filled (trade_log s1) + abs_resting (pool_arr (pool s1)) q1 + submitted os"
    by blast
  have "2 * filled (trade_log s') + abs_resting (pool_arr (pool s')) q' =
           2 * filled (trade_log s) + abs_resting (pool_arr (pool s)) q + submitted (x # os)"
    using c1 c2 by (simp add: lg x submitted_def)
  with ba' show ?case by blast
qed

lemma abs_resting_empty [simp]: "abs_resting m (\<lambda>_ _. []) = 0"
  by (simp add: abs_resting_def)

lemma run_conservation:
  assumes "run new_MatchingEngine os = Some (Inr s)"
  shows "2 * filled (trade_log s) + resting_qty s = submitted os"
proof -
  from run_post[OF book_abs_new assms] obtain q where
    "book_abs s q" "2 * filled (trade_log s) + abs_resting (pool_arr (pool s)) q =
       2 * filled (trade_log new_MatchingEngine) +
       abs_resting (pool_arr (pool new_MatchingEngine)) (\<lambda>_ _. []) + submitted os" by blast
  then show ?thesis by (simp add: resting_qty_abs new_MatchingEngine_def filled_def)
qed

lemma run_engine_inv:
  assumes "run new_MatchingEngine os = Some (Inr s)"
  shows "engine_inv s"
  using run_post[OF book_abs_new assms] by (auto simp: engine_inv_def)

lemma chain_unfold:
  "chain n m p = (if n = 0 then [] else case p of None \<Rightarrow> [] | Some x \<Rightarrow> x # chain (n - 1) m (next (m x)))"
  by (cases n; cases p) auto

lemma scenario_C_eval:
  "\<exists>s. run new_MatchingEngine scenario_C = Some (Inr s) \<and>
     map trade_qty (trade_log s) = [3, 4, 3] \<and> side_queue s False 102 = [2] \<and>
     qty (pool_arr (pool s) 2) = 2"
  by (simp add: scenario_C_def eval_defs side_queue_def queue_of_def chain_unfold)

section \<open>The arena and the trade steps of a call\<close>

text \<open>The invariant above says that a queued order is allocated and has a positive
  quantity. This section adds the converse for the arena: through every trade step and
  every call, a slot is on the free stack, or queued, or the slot of the inbound order
  of the running call. So an order that leaves its queue is on the free stack at once.\<close>

subsection \<open>The slots of an abstract book\<close>

lemma queued_pop:
  assumes "q sd t = r # rest"
  shows "insert r (queued (q(sd := (q sd)(t := rest)))) = queued q"
proof -
  let ?q = "q(sd := (q sd)(t := rest))"
  have a: "set (?q sd' t') \<subseteq> set (q sd' t')" for sd' t' using assms by auto
  have b: "set (q sd' t') \<subseteq> insert r (set (?q sd' t'))" for sd' t' using assms by auto
  have c: "r \<in> set (q sd t)" using assms by simp
  have "queued ?q \<subseteq> queued q"
    unfolding queued_def using a by blast
  moreover have "queued q \<subseteq> insert r (queued ?q)"
    unfolding queued_def using b by blast
  moreover have "r \<in> queued q" unfolding queued_def using c by blast
  ultimately show ?thesis by blast
qed

lemma queued_push:
  "queued (q(sd := (q sd)(t := q sd t @ [x]))) = insert x (queued q)"
proof -
  let ?q = "q(sd := (q sd)(t := q sd t @ [x]))"
  have a: "set (?q sd' t') \<subseteq> insert x (set (q sd' t'))" for sd' t' by auto
  have b: "set (q sd' t') \<subseteq> set (?q sd' t')" for sd' t' by auto
  have c: "x \<in> set (?q sd t)" by simp
  have "queued ?q \<subseteq> insert x (queued q)"
    unfolding queued_def using a by blast
  moreover have "queued q \<subseteq> queued ?q"
    unfolding queued_def using b by blast
  moreover have "x \<in> queued ?q" unfolding queued_def using c by blast
  ultimately show ?thesis by blast
qed

lemma queued_resting_slots:
  assumes "book_abs s q"
  shows "resting_slots s = queued q"
proof -
  from assms have z: "\<And>sd t. NUM_TICKS \<le> t \<Longrightarrow> q sd t = []"
    by (simp add: book_abs_def levels_ok_def)
  have "resting_slots s = (\<Union>sd. \<Union>t\<in>{..<NUM_TICKS}. set (q sd t))"
    by (simp add: resting_slots_def side_queue_abs[OF assms])
  also have "\<dots> = queued q"
  proof
    show "(\<Union>sd. \<Union>t\<in>{..<NUM_TICKS}. set (q sd t)) \<subseteq> queued q"
      unfolding queued_def by blast
    show "queued q \<subseteq> (\<Union>sd. \<Union>t\<in>{..<NUM_TICKS}. set (q sd t))"
    proof
      fix x assume "x \<in> queued q"
      then obtain sd t where x: "x \<in> set (q sd t)" by (auto simp: queued_def)
      then have "t < NUM_TICKS" using z[of t sd] by (cases "t < NUM_TICKS") auto
      with x show "x \<in> (\<Union>sd. \<Union>t\<in>{..<NUM_TICKS}. set (q sd t))" by blast
    qed
  qed
  finally show ?thesis .
qed

lemma in_flight_resting:
  assumes fl: "in_flight s q ib" and i: "i \<in> queued q"
  shows "0 < qty (pool_arr (pool s) i) \<and> i \<notin> free_slots (pool s) \<and> i \<noteq> ib"
proof -
  from i obtain sd t where iq: "i \<in> set (q sd t)" by (auto simp: queued_def)
  note d = in_flightD[OF fl]
  from orders_okD(2,5)[OF d(3) iq] d(6)[of sd t] iq show ?thesis by auto
qed

subsection \<open>One trade step\<close>

text \<open>A trade step of a call with the invariant meets the head \<open>r\<close> of a queue of the
  other side. If it leaves \<open>r\<close> without quantity, \<open>r\<close> is popped and pushed on the free
  stack; otherwise the queue and the free stack stay as they are.\<close>

lemma trade_effect:
  assumes fl: "in_flight s q ib" and t: "t < NUM_TICKS" "unat fp = t" and q: "q sd t = r # rest"
    and ex: "executeTrade s ib (Some r) (sd, t) fp sd = Some s'"
  shows "0 < qty (pool_arr (pool s) r) \<and>
         (if qty (pool_arr (pool s') r) = 0
          then in_flight s' (q(sd := (q sd)(t := rest))) ib \<and>
               free_slots (pool s') = insert r (free_slots (pool s))
          else in_flight s' q ib \<and> free_slots (pool s') = free_slots (pool s))"
proof -
  let ?m = "pool_arr (pool s)"
  have rq: "r \<in> set (q sd t)" using q by simp
  have pos: "0 < qty (?m r)" using orders_okD(5)[OF in_flightD(3)[OF fl] rq] .
  show ?thesis
  proof (cases "qty (?m r) \<le> qty (?m ib)")
    case True
    from executeTrade_full[OF fl t q True] ex show ?thesis using pos by auto
  next
    case False
    then have lt: "qty (?m ib) < qty (?m r)" by simp
    then have nz: "qty (?m r) - qty (?m ib) \<noteq> 0" by simp
    from executeTrade_partial[OF fl t(1) q lt, of fp] ex show ?thesis using pos nz by auto
  qed
qed

lemma trade_step_level:
  assumes fl: "in_flight s q ib" and ts: "trade_step ib b s r s'"
  shows "\<exists>fp rest. unat fp < NUM_TICKS \<and> q (\<not> b) (unat fp) = r # rest \<and>
           executeTrade s ib (Some r) (\<not> b, unat fp) fp (\<not> b) = Some s'"
  using ts
proof (cases rule: trade_step.cases)
  case (buy best)
  note lv = in_flight_levels[OF fl, where sd = False, unfolded tracker_of_def level_at_def, simplified]
  have act: "\<exists>t0<NUM_TICKS. tick_bit (ask_tracker (book s)) t0"
  proof (rule ccontr)
    assume "\<not> ?thesis"
    then have "\<forall>t<NUM_TICKS. \<not> tick_bit (ask_tracker (book s)) t" by blast
    from getBestAsk_empty[OF lv(1) this] buy show False by simp
  qed
  then obtain t0 where "t0 < NUM_TICKS" "tick_bit (ask_tracker (book s)) t0" by blast
  from getBestAsk_lowest[OF lv(1) this] buy have a: "unat best < NUM_TICKS"
    and ac: "tick_bit (ask_tracker (book s)) (unat best)" by auto
  from ac lv(2)[OF a] obtain r' rest where q: "q False (unat best) = r' # rest"
    by (cases "q False (unat best)") auto
  have "head (asks (book s) (unat best)) = Some r'" using lv(4)[OF a] q by simp
  with buy have "r' = r" by simp
  with q a buy show ?thesis by auto
next
  case (sell best)
  note lv = in_flight_levels[OF fl, where sd = True, unfolded tracker_of_def level_at_def, simplified]
  have act: "\<exists>t0<NUM_TICKS. tick_bit (bid_tracker (book s)) t0"
  proof (rule ccontr)
    assume "\<not> ?thesis"
    then have "\<forall>t<NUM_TICKS. \<not> tick_bit (bid_tracker (book s)) t" by blast
    from getBestBid_empty[OF lv(1) this] sell show False by simp
  qed
  then obtain t0 where "t0 < NUM_TICKS" "tick_bit (bid_tracker (book s)) t0" by blast
  from getBestBid_highest[OF lv(1) this] sell have a: "unat best < NUM_TICKS"
    and ac: "tick_bit (bid_tracker (book s)) (unat best)" by auto
  from ac lv(2)[OF a] obtain r' rest where q: "q True (unat best) = r' # rest"
    by (cases "q True (unat best)") auto
  have "head (bids (book s) (unat best)) = Some r'" using lv(4)[OF a] q by simp
  with sell have "r' = r" by simp
  with q a sell show ?thesis by auto
qed

lemma trade_step_inv:
  assumes fl: "in_flight s q ib" and ts: "trade_step ib b s r s'"
  shows "\<exists>t rest. t < NUM_TICKS \<and> q (\<not> b) t = r # rest \<and> 0 < qty (pool_arr (pool s) r) \<and>
         (if qty (pool_arr (pool s') r) = 0
          then in_flight s' (q(\<not> b := (q (\<not> b))(t := rest))) ib \<and>
               free_slots (pool s') = insert r (free_slots (pool s))
          else in_flight s' q ib \<and> free_slots (pool s') = free_slots (pool s))"
proof -
  from trade_step_level[OF fl ts] obtain fp rest where
    a: "unat fp < NUM_TICKS" and q: "q (\<not> b) (unat fp) = r # rest"
    and ex: "executeTrade s ib (Some r) (\<not> b, unat fp) fp (\<not> b) = Some s'" by blast
  from trade_effect[OF fl a refl q ex] a q show ?thesis by blast
qed

subsection \<open>The loops are runs of trade steps\<close>

text \<open>A trade step is one unfolding of its loop; the state in which a loop returns is
  reached from the state in which it starts by trade steps, and admits no further one.\<close>

lemma trade_step_unfold:
  assumes "trade_step ib b s r s'"
  shows "(if b then matchBuyOrder s ib else matchSellOrder s ib) =
         (if b then matchBuyOrder s' ib else matchSellOrder s' ib)"
  using assms
proof (cases rule: trade_step.cases)
  case (buy best)
  then show ?thesis by (subst matchBuyOrder.simps) simp
next
  case (sell best)
  then show ?thesis by (subst matchSellOrder.simps) simp
qed

lemma matchBuyOrder_matching:
  assumes "matchBuyOrder s0 ib = Some s1" and "matching s ib True s0"
  shows "matching s ib True s1"
  using assms
proof (induction rule: matchBuyOrder.raw_induct[rotated, consumes 1])
  case (1 f s0 ib s1)
  show ?case
  proof (cases "s1 = s0")
    case True
    with 1 show ?thesis by simp
  next
    case False
    with 1(2) obtain best r s' where
      "0 < qty (pool_arr (pool s0) ib)" "getBestAsk (ask_tracker (book s0)) = Some best"
      "\<not> (price (pool_arr (pool s0) ib) < best \<or> best = MAX_PRICE_TICKS)"
      "head (asks (book s0) (unat best)) = Some r"
      "executeTrade s0 ib (Some r) (False, unat best) best False = Some s'"
      "f s' ib = Some s1"
      by (auto split: if_splits option.splits simp: executeTrade_def)
    then have "trade_step ib True s0 r s'" "f s' ib = Some s1"
      by (auto intro: trade_step.buy)
    with 1(1,3) show ?thesis by (blast intro: matching.step)
  qed
qed

lemma matchSellOrder_matching:
  assumes "matchSellOrder s0 ib = Some s1" and "matching s ib False s0"
  shows "matching s ib False s1"
  using assms
proof (induction rule: matchSellOrder.raw_induct[rotated, consumes 1])
  case (1 f s0 ib s1)
  show ?case
  proof (cases "s1 = s0")
    case True
    with 1 show ?thesis by simp
  next
    case False
    with 1(2) obtain best r s' where
      "0 < qty (pool_arr (pool s0) ib)" "getBestBid (bid_tracker (book s0)) = Some best"
      "\<not> (best < price (pool_arr (pool s0) ib) \<or> best = 0)"
      "head (bids (book s0) (unat best)) = Some r"
      "executeTrade s0 ib (Some r) (True, unat best) best True = Some s'"
      "f s' ib = Some s1"
      by (auto split: if_splits option.splits simp: executeTrade_def)
    then have "trade_step ib False s0 r s'" "f s' ib = Some s1"
      by (auto intro: trade_step.sell)
    with 1(1,3) show ?thesis by (blast intro: matching.step)
  qed
qed

lemma matchBuyOrder_done:
  assumes "matchBuyOrder s0 ib = Some s1"
  shows "\<not> trade_step ib True s1 r s2"
  using assms
proof (induction rule: matchBuyOrder.raw_induct[rotated, consumes 1])
  case (1 f s0 ib s1)
  show ?case
  proof (cases "0 < qty (pool_arr (pool s0) ib)")
    case False
    with 1(2) have e: "s1 = s0" by simp
    show ?thesis
    proof
      assume "trade_step ib True s1 r s2"
      then show False using False e by (cases rule: trade_step.cases) simp_all
    qed
  next
    case pos: True
    with 1(2) obtain a where ga: "getBestAsk (ask_tracker (book s0)) = Some a"
      by (auto split: option.splits)
    show ?thesis
    proof (cases "price (pool_arr (pool s0) ib) < a \<or> a = MAX_PRICE_TICKS")
      case True
      with 1(2) pos ga have e: "s1 = s0" by simp
      show ?thesis
      proof
        assume "trade_step ib True s1 r s2"
        then show False using True ga e by (cases rule: trade_step.cases) simp_all
      qed
    next
      case False
      with 1(2) pos ga obtain s' where "f s' ib = Some s1"
        by (auto split: option.splits)
      then show ?thesis by (rule 1(1))
    qed
  qed
qed

lemma matchSellOrder_done:
  assumes "matchSellOrder s0 ib = Some s1"
  shows "\<not> trade_step ib False s1 r s2"
  using assms
proof (induction rule: matchSellOrder.raw_induct[rotated, consumes 1])
  case (1 f s0 ib s1)
  show ?case
  proof (cases "0 < qty (pool_arr (pool s0) ib)")
    case False
    with 1(2) have e: "s1 = s0" by simp
    show ?thesis
    proof
      assume "trade_step ib False s1 r s2"
      then show False using False e by (cases rule: trade_step.cases) simp_all
    qed
  next
    case pos: True
    with 1(2) obtain a where ga: "getBestBid (bid_tracker (book s0)) = Some a"
      by (auto split: option.splits)
    show ?thesis
    proof (cases "a < price (pool_arr (pool s0) ib) \<or> a = 0")
      case True
      with 1(2) pos ga have e: "s1 = s0" by auto
      show ?thesis
      proof
        assume "trade_step ib False s1 r s2"
        then show False using True ga e by (cases rule: trade_step.cases) simp_all
      qed
    next
      case False
      with 1(2) pos ga obtain s' where "f s' ib = Some s1"
        by (auto split: option.splits)
      then show ?thesis by (rule 1(1))
    qed
  qed
qed

lemma processNewOrder_matching:
  assumes r: "processNewOrder s i pr qy b = Some (Inr s')"
  shows "\<exists>p ib s1.
           allocate (pool s) i pr qy b = Some (Inr (p, ib)) \<and>
           (if b then matchBuyOrder (s\<lparr>pool := p\<rparr>) ib
            else matchSellOrder (s\<lparr>pool := p\<rparr>) ib) = Some s1 \<and>
           matching s ib b s1 \<and> (\<forall>r s2. \<not> trade_step ib b s1 r s2) \<and>
           (if 0 < qty (pool_arr (pool s1) ib)
            then \<exists>bk m. addOrder (book s1) (pool_arr (pool s1)) ib = Some (bk, m) \<and>
                   s' = s1\<lparr>book := bk, pool := (pool s1)\<lparr>pool_arr := m\<rparr>\<rparr>
            else \<exists>p'. deallocate (pool s1) ib = Some p' \<and> s' = s1\<lparr>pool := p'\<rparr>)"
proof -
  from r obtain p ib where al: "allocate (pool s) i pr qy b = Some (Inr (p, ib))"
    by (auto simp: processNewOrder_def split: option.splits sum.splits)
  from r al obtain s1 where
    lp: "(if b then matchBuyOrder (s\<lparr>pool := p\<rparr>) ib else matchSellOrder (s\<lparr>pool := p\<rparr>) ib) = Some s1"
    by (auto simp: processNewOrder_def split: option.splits)
  have m0: "matching s ib b (s\<lparr>pool := p\<rparr>)" using al by (rule matching.enter)
  have m1: "matching s ib b s1 \<and> (\<forall>r s2. \<not> trade_step ib b s1 r s2)"
  proof (cases b)
    case True
    with lp have l: "matchBuyOrder (s\<lparr>pool := p\<rparr>) ib = Some s1" by simp
    from matchBuyOrder_matching[OF l] m0 matchBuyOrder_done[OF l] True show ?thesis by simp
  next
    case False
    with lp have l: "matchSellOrder (s\<lparr>pool := p\<rparr>) ib = Some s1" by simp
    from matchSellOrder_matching[OF l] m0 matchSellOrder_done[OF l] False show ?thesis by simp
  qed
  have "if 0 < qty (pool_arr (pool s1) ib)
            then \<exists>bk m. addOrder (book s1) (pool_arr (pool s1)) ib = Some (bk, m) \<and>
                   s' = s1\<lparr>book := bk, pool := (pool s1)\<lparr>pool_arr := m\<rparr>\<rparr>
            else \<exists>p'. deallocate (pool s1) ib = Some p' \<and> s' = s1\<lparr>pool := p'\<rparr>"
    using r al lp by (auto simp: processNewOrder_def split: option.splits if_splits)
  with al lp m1 show ?thesis by blast
qed

subsection \<open>Every slot is free, queued or in flight\<close>

lemma matching_inv:
  assumes ba: "book_abs s q" and ld: "free_slots (pool s) \<union> queued q = {..<MAX_ORDERS}"
    and mt: "matching s ib b s1"
  shows "\<exists>q1. in_flight s1 q1 ib \<and>
           insert ib (free_slots (pool s1) \<union> queued q1) = {..<MAX_ORDERS}"
  using mt
proof (induction rule: matching.induct)
  case (enter i pr qy p)
  have fr: "0 < free_idx (pool s)"
  proof (rule ccontr)
    assume "\<not> 0 < free_idx (pool s)"
    with enter show False by (simp add: allocate_def)
  qed
  from ba have pk: "pool_ok (pool s)" by (simp add: book_abs_def)
  from allocate_ok[OF pk fr, of i pr qy b] enter
  have ib: "ib \<in> free_slots (pool s)" and fs: "free_slots p = free_slots (pool s) - {ib}"
    by auto
  from allocate_in_flight[OF ba fr, of i pr qy b] enter
  have fl: "in_flight (s\<lparr>pool := p\<rparr>) q ib" by auto
  have "insert ib (free_slots (pool (s\<lparr>pool := p\<rparr>)) \<union> queued q) = {..<MAX_ORDERS}"
    using ld ib by (auto simp: fs)
  with fl show ?case by blast
next
  case (step s1 resting s2)
  then obtain q1 where fl: "in_flight s1 q1 ib"
    and ld1: "insert ib (free_slots (pool s1) \<union> queued q1) = {..<MAX_ORDERS}" by blast
  from trade_step_inv[OF fl step.hyps(2)] obtain t rest where
    q: "q1 (\<not> b) t = resting # rest"
    and c: "if qty (pool_arr (pool s2) resting) = 0
          then in_flight s2 (q1(\<not> b := (q1 (\<not> b))(t := rest))) ib \<and>
               free_slots (pool s2) = insert resting (free_slots (pool s1))
          else in_flight s2 q1 ib \<and> free_slots (pool s2) = free_slots (pool s1)"
    by blast
  show ?case
  proof (cases "qty (pool_arr (pool s2) resting) = 0")
    case True
    with c have fl2: "in_flight s2 (q1(\<not> b := (q1 (\<not> b))(t := rest))) ib"
      and fs: "free_slots (pool s2) = insert resting (free_slots (pool s1))" by auto
    have "insert ib (free_slots (pool s2) \<union> queued (q1(\<not> b := (q1 (\<not> b))(t := rest)))) =
          {..<MAX_ORDERS}"
      using ld1 queued_pop[of q1 "\<not> b" t resting rest, OF q] by (auto simp: fs)
    with fl2 show ?thesis by blast
  next
    case False
    with c ld1 show ?thesis by auto
  qed
qed

lemma inbound_rests_or_released:
  assumes fl: "in_flight s1 q1 ib"
    and ld1: "insert ib (free_slots (pool s1) \<union> queued q1) = {..<MAX_ORDERS}"
    and c: "if 0 < qty (pool_arr (pool s1) ib)
            then \<exists>bk m. addOrder (book s1) (pool_arr (pool s1)) ib = Some (bk, m) \<and>
                   s' = s1\<lparr>book := bk, pool := (pool s1)\<lparr>pool_arr := m\<rparr>\<rparr>
            else \<exists>p'. deallocate (pool s1) ib = Some p' \<and> s' = s1\<lparr>pool := p'\<rparr>"
  shows "\<exists>q'. book_abs s' q' \<and> free_slots (pool s') \<union> queued q' = {..<MAX_ORDERS} \<and>
           (if 0 < qty (pool_arr (pool s1) ib)
            then ib \<in> queued q' \<and> ib \<notin> free_slots (pool s')
            else ib \<notin> queued q' \<and> ib \<in> free_slots (pool s'))"
proof -
  let ?m = "pool_arr (pool s1)"
  note d = in_flightD[OF fl]
  show ?thesis
  proof (cases "0 < qty (?m ib)")
    case True
    with c obtain bk m where ao: "addOrder (book s1) ?m ib = Some (bk, m)"
      and s': "s' = s1\<lparr>book := bk, pool := (pool s1)\<lparr>pool_arr := m\<rparr>\<rparr>" by auto
    have prr: "price (?m ib) < MAX_PRICE_TICKS"
      using ao addOrder_out_of_range[of ?m ib "book s1"] by (cases "price (?m ib) < MAX_PRICE_TICKS") auto
    let ?q = "q1(is_buy (?m ib) := (q1 (is_buy (?m ib)))(unat (price (?m ib)) :=
                 q1 (is_buy (?m ib)) (unat (price (?m ib))) @ [ib]))"
    from addOrder_ok[OF fl True prr] ao have ba': "book_abs s' ?q" by (auto simp: s')
    have qq: "queued ?q = insert ib (queued q1)" by (rule queued_push)
    have l': "free_slots (pool s') \<union> queued ?q = {..<MAX_ORDERS}"
      using ld1 by (simp add: s' qq)
    have i1: "ib \<in> queued ?q" by (simp add: qq)
    have i2: "ib \<notin> free_slots (pool s')" using d(5) by (simp add: s')
    show ?thesis
      by (rule exI[of _ ?q]) (simp only: ba' l' i1 i2 True if_True simp_thms)
  next
    case False
    with c obtain p' where de: "deallocate (pool s1) ib = Some p'"
      and s': "s' = s1\<lparr>pool := p'\<rparr>" by auto
    from deallocate_ok[OF d(1,4,5)] de
    have fs: "free_slots p' = insert ib (free_slots (pool s1))" by auto
    from deallocate_in_flight[OF fl] de have ba': "book_abs s' q1" by (auto simp: s')
    have l': "free_slots (pool s') \<union> queued q1 = {..<MAX_ORDERS}"
      using ld1 by (simp add: s' fs)
    have i1: "ib \<notin> queued q1" using d(6) by (auto simp: queued_def)
    have i2: "ib \<in> free_slots (pool s')" by (simp add: s' fs)
    show ?thesis
      by (rule exI[of _ q1]) (simp only: ba' l' i1 i2 False if_False simp_thms)
  qed
qed

lemma processNewOrder_arena:
  assumes ba: "book_abs s q" and ar: "free_slots (pool s) \<union> queued q = {..<MAX_ORDERS}"
    and r: "processNewOrder s i pr qy b = Some (Inr s')"
  shows "\<exists>p ib s1 q'.
           allocate (pool s) i pr qy b = Some (Inr (p, ib)) \<and>
           (if b then matchBuyOrder (s\<lparr>pool := p\<rparr>) ib
            else matchSellOrder (s\<lparr>pool := p\<rparr>) ib) = Some s1 \<and>
           book_abs s' q' \<and> free_slots (pool s') \<union> queued q' = {..<MAX_ORDERS} \<and>
           (if 0 < qty (pool_arr (pool s1) ib)
            then ib \<in> queued q' \<and> ib \<notin> free_slots (pool s')
            else ib \<notin> queued q' \<and> ib \<in> free_slots (pool s'))"
proof -
  from processNewOrder_matching[OF r] obtain p ib s1 where
    al: "allocate (pool s) i pr qy b = Some (Inr (p, ib))"
    and lp: "(if b then matchBuyOrder (s\<lparr>pool := p\<rparr>) ib
              else matchSellOrder (s\<lparr>pool := p\<rparr>) ib) = Some s1"
    and mt: "matching s ib b s1"
    and c: "if 0 < qty (pool_arr (pool s1) ib)
            then \<exists>bk m. addOrder (book s1) (pool_arr (pool s1)) ib = Some (bk, m) \<and>
                   s' = s1\<lparr>book := bk, pool := (pool s1)\<lparr>pool_arr := m\<rparr>\<rparr>
            else \<exists>p'. deallocate (pool s1) ib = Some p' \<and> s' = s1\<lparr>pool := p'\<rparr>"
    by blast
  from matching_inv[OF ba ar mt] obtain q1 where fl: "in_flight s1 q1 ib"
    and ar1: "insert ib (free_slots (pool s1) \<union> queued q1) = {..<MAX_ORDERS}" by blast
  from inbound_rests_or_released[OF fl ar1 c] obtain q' where
    "book_abs s' q'" "free_slots (pool s') \<union> queued q' = {..<MAX_ORDERS}"
    "if 0 < qty (pool_arr (pool s1) ib)
     then ib \<in> queued q' \<and> ib \<notin> free_slots (pool s')
     else ib \<notin> queued q' \<and> ib \<in> free_slots (pool s')" by blast
  with al lp show ?thesis by blast
qed

lemma run_arena_from:
  assumes "book_abs s q" "free_slots (pool s) \<union> queued q = {..<MAX_ORDERS}"
    and "run s os = Some (Inr s')"
  shows "\<exists>q'. book_abs s' q' \<and> free_slots (pool s') \<union> queued q' = {..<MAX_ORDERS}"
  using assms
proof (induction os arbitrary: s q)
  case Nil
  then show ?case by auto
next
  case (Cons x os)
  obtain i pr qy b where x: "x = (i, pr, qy, b)" by (cases x) auto
  from Cons.prems(3) obtain s1 where
    s1: "processNewOrder s i pr qy b = Some (Inr s1)" and r: "run s1 os = Some (Inr s')"
    by (auto simp: x split: option.splits sum.splits)
  from processNewOrder_arena[OF Cons.prems(1,2) s1] obtain q1 where
    "book_abs s1 q1" "free_slots (pool s1) \<union> queued q1 = {..<MAX_ORDERS}" by blast
  from Cons.IH[OF this r] show ?case .
qed

lemma arena_new: "free_slots (pool new_MatchingEngine) \<union> queued (\<lambda>_ _. []) = {..<MAX_ORDERS}"
proof -
  have "(\<lambda>i. MAX_ORDERS - 1 - i) ` {..<MAX_ORDERS} = {..<MAX_ORDERS}"
  proof
    show "(\<lambda>i. MAX_ORDERS - 1 - i) ` {..<MAX_ORDERS} \<subseteq> {..<MAX_ORDERS}"
      by (auto simp: MAX_ORDERS_def)
    show "{..<MAX_ORDERS} \<subseteq> (\<lambda>i. MAX_ORDERS - 1 - i) ` {..<MAX_ORDERS}"
    proof
      fix x assume "x \<in> {..<MAX_ORDERS}"
      then have "x = MAX_ORDERS - 1 - (MAX_ORDERS - 1 - x)" "MAX_ORDERS - 1 - x \<in> {..<MAX_ORDERS}"
        by auto
      then show "x \<in> (\<lambda>i. MAX_ORDERS - 1 - i) ` {..<MAX_ORDERS}" by (rule image_eqI)
    qed
  qed
  then show ?thesis
    by (simp add: new_MatchingEngine_def new_OrderPool_def free_slots_def queued_def)
qed

lemma run_arena:
  assumes "run new_MatchingEngine os = Some (Inr s)"
  shows "\<exists>q. book_abs s q \<and> free_slots (pool s) \<union> queued q = {..<MAX_ORDERS}"
  by (rule run_arena_from[OF book_abs_new arena_new assms])

lemma run_arena_partition:
  assumes "run new_MatchingEngine os = Some (Inr s)"
  shows "free_slots (pool s) \<union> resting_slots s = {..<MAX_ORDERS}"
proof -
  from run_arena[OF assms] obtain q where ba: "book_abs s q"
    and ar: "free_slots (pool s) \<union> queued q = {..<MAX_ORDERS}" by blast
  then show ?thesis by (simp add: queued_resting_slots[OF ba])
qed

subsection \<open>The states of a call in a run\<close>

lemma matching_resting:
  assumes r: "run new_MatchingEngine os = Some (Inr s)" and mt: "matching s ib b s1"
  shows "\<exists>q1. in_flight s1 q1 ib \<and> resting_slots s1 = queued q1 \<and>
           insert ib (free_slots (pool s1) \<union> resting_slots s1) = {..<MAX_ORDERS}"
proof -
  from run_arena[OF r] obtain q where ba: "book_abs s q"
    and ar: "free_slots (pool s) \<union> queued q = {..<MAX_ORDERS}" by blast
  from matching_inv[OF ba ar mt] obtain q1 where fl: "in_flight s1 q1 ib"
    and ar1: "insert ib (free_slots (pool s1) \<union> queued q1) = {..<MAX_ORDERS}" by blast
  from fl have "book_abs s1 q1" by (simp add: in_flight_def)
  from queued_resting_slots[OF this] fl ar1 show ?thesis by auto
qed

lemma matching_positive:
  assumes r: "run new_MatchingEngine os = Some (Inr s)" and mt: "matching s ib b s1"
  shows "(\<forall>i\<in>resting_slots s1.
            0 < qty (pool_arr (pool s1) i) \<and> i \<notin> free_slots (pool s1) \<and> i \<noteq> ib) \<and>
         ib \<notin> free_slots (pool s1) \<and>
         insert ib (free_slots (pool s1) \<union> resting_slots s1) = {..<MAX_ORDERS}"
proof -
  from matching_resting[OF r mt] obtain q1 where fl: "in_flight s1 q1 ib"
    and rs: "resting_slots s1 = queued q1"
    and ar: "insert ib (free_slots (pool s1) \<union> resting_slots s1) = {..<MAX_ORDERS}" by blast
  from in_flight_resting[OF fl] rs in_flightD(5)[OF fl] ar show ?thesis by auto
qed

lemma trade_step_release:
  assumes r: "run new_MatchingEngine os = Some (Inr s)" and mt: "matching s ib b s1"
    and ts: "trade_step ib b s1 r s2"
  shows "\<exists>u rest. u < NUM_TICKS \<and> side_queue s1 (\<not> b) u = r # rest \<and>
           0 < qty (pool_arr (pool s1) r) \<and>
           (if qty (pool_arr (pool s2) r) = 0
            then side_queue s2 (\<not> b) u = rest \<and> r \<notin> resting_slots s2 \<and>
                 r \<in> free_slots (pool s2)
            else side_queue s2 (\<not> b) u = r # rest \<and> r \<notin> free_slots (pool s2))"
proof -
  from matching_resting[OF r mt] obtain q1 where fl: "in_flight s1 q1 ib" by blast
  then have ba1: "book_abs s1 q1" by (simp add: in_flight_def)
  from trade_step_inv[OF fl ts] obtain u rest where
    u: "u < NUM_TICKS" and q: "q1 (\<not> b) u = r # rest" and pos: "0 < qty (pool_arr (pool s1) r)"
    and c: "if qty (pool_arr (pool s2) r) = 0
          then in_flight s2 (q1(\<not> b := (q1 (\<not> b))(u := rest))) ib \<and>
               free_slots (pool s2) = insert r (free_slots (pool s1))
          else in_flight s2 q1 ib \<and> free_slots (pool s2) = free_slots (pool s1)"
    by blast
  have sq1: "side_queue s1 (\<not> b) u = r # rest" using side_queue_abs[OF ba1 u] q by simp
  show ?thesis
  proof (cases "qty (pool_arr (pool s2) r) = 0")
    case True
    let ?q = "q1(\<not> b := (q1 (\<not> b))(u := rest))"
    from True c have fl2: "in_flight s2 ?q ib"
      and fs: "free_slots (pool s2) = insert r (free_slots (pool s1))" by auto
    from fl2 have ba2: "book_abs s2 ?q" by (simp add: in_flight_def)
    have sq2: "side_queue s2 (\<not> b) u = rest" using side_queue_abs[OF ba2 u, of "\<not> b"] by simp
    have fr: "r \<in> free_slots (pool s2)" by (simp add: fs)
    have "r \<notin> queued ?q" using in_flight_resting[OF fl2, of r] fr by blast
    then have "r \<notin> resting_slots s2" by (simp add: queued_resting_slots[OF ba2])
    with True u sq1 pos sq2 fr show ?thesis by auto
  next
    case False
    with c have fl2: "in_flight s2 q1 ib" by auto
    from fl2 have ba2: "book_abs s2 q1" by (simp add: in_flight_def)
    have sq2: "side_queue s2 (\<not> b) u = r # rest" using side_queue_abs[OF ba2 u] q by simp
    have "r \<in> set (q1 (\<not> b) u)" using q by simp
    then have "r \<in> queued q1" unfolding queued_def by blast
    from in_flight_resting[OF fl2 this] have "r \<notin> free_slots (pool s2)" by simp
    with False u sq1 pos sq2 show ?thesis by auto
  qed
qed

lemma call_inbound:
  assumes r: "run new_MatchingEngine os = Some (Inr s)"
    and c: "processNewOrder s i pr qy b = Some (Inr s')"
  shows "\<exists>p ib s1.
           allocate (pool s) i pr qy b = Some (Inr (p, ib)) \<and>
           (if b then matchBuyOrder (s\<lparr>pool := p\<rparr>) ib
            else matchSellOrder (s\<lparr>pool := p\<rparr>) ib) = Some s1 \<and>
           (if 0 < qty (pool_arr (pool s1) ib)
            then ib \<in> resting_slots s' \<and> ib \<notin> free_slots (pool s')
            else ib \<notin> resting_slots s' \<and> ib \<in> free_slots (pool s'))"
proof -
  from run_arena[OF r] obtain q where ba: "book_abs s q"
    and ar: "free_slots (pool s) \<union> queued q = {..<MAX_ORDERS}" by blast
  from processNewOrder_arena[OF ba ar c] obtain p ib s1 q' where
    al: "allocate (pool s) i pr qy b = Some (Inr (p, ib))"
    and lp: "(if b then matchBuyOrder (s\<lparr>pool := p\<rparr>) ib
              else matchSellOrder (s\<lparr>pool := p\<rparr>) ib) = Some s1"
    and ba': "book_abs s' q'"
    and d: "if 0 < qty (pool_arr (pool s1) ib)
            then ib \<in> queued q' \<and> ib \<notin> free_slots (pool s')
            else ib \<notin> queued q' \<and> ib \<in> free_slots (pool s')" by blast
  from d have "if 0 < qty (pool_arr (pool s1) ib)
            then ib \<in> resting_slots s' \<and> ib \<notin> free_slots (pool s')
            else ib \<notin> resting_slots s' \<and> ib \<in> free_slots (pool s')"
    by (simp add: queued_resting_slots[OF ba'])
  with al lp show ?thesis by blast
qed

section \<open>Invariants of every run\<close>

lemma engine_inv_queue:
  assumes "engine_inv s" "t < NUM_TICKS"
  shows "linked (pool_arr (pool s)) (head (level_at (book s) (sd, t))) (side_queue s sd t) \<and>
         (\<forall>i\<in>set (side_queue s sd t).
            0 < qty (pool_arr (pool s) i) \<and> i \<notin> free_slots (pool s) \<and>
            is_buy (pool_arr (pool s) i) = sd \<and> unat (price (pool_arr (pool s) i)) = t)"
proof -
  from assms(1) obtain q where ba: "book_abs s q" by (auto simp: engine_inv_def)
  have e: "side_queue s sd t = q sd t" by (rule side_queue_abs[OF ba assms(2)])
  from ba assms(2) have "linked (pool_arr (pool s)) (head (level_at (book s) (sd, t))) (q sd t)"
    by (simp add: book_abs_def levels_ok_def level_ok_def)
  moreover from ba have "\<forall>i\<in>set (q sd t).
            0 < qty (pool_arr (pool s) i) \<and> i \<notin> free_slots (pool s) \<and>
            is_buy (pool_arr (pool s) i) = sd \<and> unat (price (pool_arr (pool s) i)) = t"
    by (simp add: book_abs_def orders_ok_def)
  ultimately show ?thesis by (simp add: e)
qed

subsection \<open>The book is uncrossed, tick 0 apart\<close>

text \<open>After every run, a tick with resting bids is below every tick with resting asks,
  unless both are tick 0.\<close>

lemma fifo_consumed_nonempty: "fifo_consumed q0 c q1 \<Longrightarrow> q1 \<noteq> [] \<Longrightarrow> q0 \<noteq> []"
  by (auto simp: fifo_consumed_def)

lemma call_post_uncrossed:
  assumes cp: "call_post s q i pr qy b s' q' ts" and un: "uncrossed q"
  shows "uncrossed q'"
proof -
  note c = cp[unfolded call_post_def]
  note r2 = c[THEN conjunct2, THEN conjunct2, THEN conjunct2]
  note c4 = r2[THEN conjunct1]
  note c7 = r2[THEN conjunct2, THEN conjunct2, THEN conjunct2, THEN conjunct1]
  have opp: "q (\<not> b) t \<noteq> []" if "q' (\<not> b) t \<noteq> []" for t
    using c4 that fifo_consumed_nonempty by blast
  from c7 obtain new where new: "q' b = (q b)(unat pr := q b (unat pr) @ new)"
    and oor: "new \<noteq> [] \<longrightarrow> out_of_reach b (unat pr) q'" by blast
  have own: "q b t \<noteq> [] \<or> (t = unat pr \<and> new \<noteq> [])" if "q' b t \<noteq> []" for t
    using that by (auto simp: new split: if_splits)
  show ?thesis
    unfolding uncrossed_def
  proof (intro allI impI, elim conjE)
    fix tb ta assume tb: "q' True tb \<noteq> []" and ta: "q' False ta \<noteq> []"
    show "tb < ta \<or> (tb = 0 \<and> ta = 0)"
    proof (cases b)
      case True
      then have a: "q False ta \<noteq> []" using opp[of ta] ta by simp
      from own[of tb] tb True have "q True tb \<noteq> [] \<or> (tb = unat pr \<and> new \<noteq> [])" by simp
      then show ?thesis
      proof
        assume "q True tb \<noteq> []"
        with a un show ?thesis by (auto simp: uncrossed_def)
      next
        assume n: "tb = unat pr \<and> new \<noteq> []"
        with oor True have "\<forall>t. q' False t \<noteq> [] \<longrightarrow> unat pr < t" by (simp add: out_of_reach_def)
        with ta n show ?thesis by blast
      qed
    next
      case False
      then have bq: "q True tb \<noteq> []" using opp[of tb] tb by simp
      from own[of ta] ta False have "q False ta \<noteq> [] \<or> (ta = unat pr \<and> new \<noteq> [])" by simp
      then show ?thesis
      proof
        assume "q False ta \<noteq> []"
        with bq un show ?thesis by (auto simp: uncrossed_def)
      next
        assume n: "ta = unat pr \<and> new \<noteq> []"
        with oor False have "\<forall>t. q' True t \<noteq> [] \<longrightarrow> t < unat pr \<or> t = 0"
          by (simp add: out_of_reach_def)
        with tb n show ?thesis by auto
      qed
    qed
  qed
qed

lemma run_uncrossed:
  assumes "book_abs s q" "uncrossed q" "run s os = Some (Inr s')"
  shows "\<exists>q'. book_abs s' q' \<and> uncrossed q'"
  using assms
proof (induction os arbitrary: s q)
  case Nil
  then show ?case by auto
next
  case (Cons x os)
  obtain i pr qy b where x: "x = (i, pr, qy, b)" by (cases x) auto
  from Cons.prems(3) obtain s1 where
    s1: "processNewOrder s i pr qy b = Some (Inr s1)" and r: "run s1 os = Some (Inr s')"
    by (auto simp: x split: option.splits sum.splits)
  from processNewOrder_Inr[OF Cons.prems(1) s1] obtain q1 ts where
    cp: "call_post s q i pr qy b s1 q1 ts" by blast
  then have ba1: "book_abs s1 q1" by (simp add: call_post_def)
  from Cons.IH[OF ba1 call_post_uncrossed[OF cp Cons.prems(2)] r] show ?case .
qed

lemma book_crossed_only_at_tick_zero:
  assumes "run new_MatchingEngine os = Some (Inr s)" "tb < NUM_TICKS" "ta < NUM_TICKS"
    and "side_queue s True tb \<noteq> []" "side_queue s False ta \<noteq> []"
  shows "tb < ta \<or> (tb = 0 \<and> ta = 0)"
proof -
  have "uncrossed (\<lambda>_ _. [])" by (simp add: uncrossed_def)
  from run_uncrossed[OF book_abs_new this assms(1)] obtain q where
    ba: "book_abs s q" and un: "uncrossed q" by blast
  from assms(4,5) have "q True tb \<noteq> []" "q False ta \<noteq> []"
    by (simp_all add: side_queue_abs[OF ba assms(2)] side_queue_abs[OF ba assms(3)])
  with un show ?thesis by (auto simp: uncrossed_def)
qed

subsection \<open>The tick-0 sentinel of the bid index\<close>

text \<open>
  Claim C1 (no crossed book after any call). The exception of the lemma above is real.
  \<^verbatim>\<open>getBestBid\<close> returns 0 for an empty index, and \<^verbatim>\<open>matchSellOrder\<close> leaves its loop on a
  best bid of 0, so a bid that rests at tick 0 is invisible to a sell. After a buy of 5 at tick 0 and a sell of 5 at price 0 both
  orders rest: the bid queue and the ask queue of tick 0 are non-empty, tick 0 is active
  in both indices, and the highest bid tick equals the lowest ask tick.
\<close>

theorem crossed_book_at_tick_zero:
  "map_option (map_sum fst (\<lambda>s. (head (bids (book s) 0), head (asks (book s) 0),
        getBestBid (bid_tracker (book s)), getBestAsk (ask_tracker (book s)),
        tick_active (bid_tracker (book s)) 0, tick_active (ask_tracker (book s)) 0)))
     (run new_MatchingEngine [(1, 0, 5, True), (2, 0, 5, False)]) =
   Some (Inr (Some 0, Some 1, Some 0, Some 0, True, True))"
  by (simp add: eval_defs tick_active_def)

text \<open>
  Claim C3 (the sell loop mirrors the buy loop, so a sell at price 0 matches a bid resting
  at tick 0). On the same two orders the sell does not trade: the log is empty, the counter
  is 0, and both orders keep their 5 units.
\<close>

theorem sell_at_zero_skips_bid_at_zero:
  "map_option (map_sum fst (\<lambda>s. (trade_log s, trades_executed s,
        qty (pool_arr (pool s) 0), qty (pool_arr (pool s) 1))))
     (run new_MatchingEngine [(1, 0, 5, True), (2, 0, 5, False)]) =
   Some (Inr ([], 0, 5, 5))"
  by (simp add: eval_defs)


subsection \<open>Resting orders, conservation and priority\<close>

text \<open>The three sells of \<open>scenario_C\<close> rest in the slots 0, 1 and 2. The buy of 10 at
  tick 102 takes slot 3 and makes three trade steps: it fills the orders of the slots 0
  and 1 and leaves 2 of the 5 of slot 2; it is filled itself, and the call releases it.\<close>

lemma sweep_eval:
  "\<exists>s p. run new_MatchingEngine [(1, 100, 3, False), (2, 101, 4, False), (3, 102, 5, False)] =
            Some (Inr s) \<and>
     side_queue s False 102 = [2] \<and>
     allocate (pool s) 4 102 10 True = Some (Inr (p, 3)) \<and>
     (\<exists>s'. processNewOrder s 4 102 10 True = Some (Inr s')) \<and>
     (\<exists>s2. 0 < qty (pool_arr p 3) \<and> getBestAsk (ask_tracker (book s)) = Some 100 \<and>
        price (pool_arr p 3) = 102 \<and> head (asks (book s) 100) = Some 0 \<and>
        executeTrade (s\<lparr>pool := p\<rparr>) 3 (Some 0) (False, 100) 100 False = Some s2 \<and>
        qty (pool_arr (pool s2) 0) = 0 \<and>
        (\<exists>s3. 0 < qty (pool_arr (pool s2) 3) \<and> getBestAsk (ask_tracker (book s2)) = Some 101 \<and>
           price (pool_arr (pool s2) 3) = 102 \<and> head (asks (book s2) 101) = Some 1 \<and>
           executeTrade s2 3 (Some 1) (False, 101) 101 False = Some s3 \<and>
           qty (pool_arr (pool s3) 1) = 0 \<and>
           (\<exists>s4. 0 < qty (pool_arr (pool s3) 3) \<and> getBestAsk (ask_tracker (book s3)) = Some 102 \<and>
              price (pool_arr (pool s3) 3) = 102 \<and> head (asks (book s3) 102) = Some 2 \<and>
              executeTrade s3 3 (Some 2) (False, 102) 102 False = Some s4 \<and>
              qty (pool_arr (pool s4) 2) = 2 \<and> qty (pool_arr (pool s4) 3) = 0 \<and>
              matchBuyOrder (s\<lparr>pool := p\<rparr>) 3 = Some s4)))"
  by (simp add: eval_defs side_queue_def queue_of_def chain_unfold)

text \<open>
  Claim C10. In every state \<open>s\<close> that a run of \<^verbatim>\<open>processNewOrder\<close> calls reaches from the
  new engine (whatever the quantities and prices of the orders, as long as the calls
  return), every level of either side is a well-formed list, and every order linked into
  it has a positive remaining quantity and is not on the free stack. For every further
  call on \<open>s\<close> and every trade step of it:
  \<^item> the inbound order rests in the book exactly when the matching loop returns with a
    positive remainder of it; otherwise the call leaves its slot on the free stack and
    in no queue;
  \<^item> a trade step meets the head \<open>r\<close> of a queue of the other side, which has a positive
    quantity; if the step brings that quantity to 0, then after the step \<open>r\<close> is popped
    from its queue, is in no queue, and is on the free stack; if not, \<open>r\<close> is still the
    head of its queue and is not on the free stack;
  \<^item> before and after every trade step, every queued order has a positive quantity, is
    not on the free stack and is not the inbound order, and every slot of the arena is
    on the free stack, or queued, or the slot of the inbound order.

  Between the calls every slot of the arena is on the free stack or queued.
\<close>

theorem resting_orders_have_positive_qty:
  assumes "run new_MatchingEngine os = Some (Inr s)" and "t < NUM_TICKS"
  shows "linked (pool_arr (pool s)) (head (level_at (book s) (sd, t))) (side_queue s sd t) \<and>
         (\<forall>i\<in>set (side_queue s sd t).
            0 < qty (pool_arr (pool s) i) \<and> i \<notin> free_slots (pool s)) \<and>
         (\<forall>i pr qy b s'. processNewOrder s i pr qy b = Some (Inr s') \<longrightarrow>
            (\<exists>p ib s1.
               allocate (pool s) i pr qy b = Some (Inr (p, ib)) \<and>
               (if b then matchBuyOrder (s\<lparr>pool := p\<rparr>) ib
                else matchSellOrder (s\<lparr>pool := p\<rparr>) ib) = Some s1 \<and>
               (if 0 < qty (pool_arr (pool s1) ib)
                then ib \<in> resting_slots s' \<and> ib \<notin> free_slots (pool s')
                else ib \<notin> resting_slots s' \<and> ib \<in> free_slots (pool s')))) \<and>
         (\<forall>ib b s1 r s2. matching s ib b s1 \<and> trade_step ib b s1 r s2 \<longrightarrow>
            (\<exists>u rest. u < NUM_TICKS \<and> side_queue s1 (\<not> b) u = r # rest \<and>
               0 < qty (pool_arr (pool s1) r) \<and>
               (if qty (pool_arr (pool s2) r) = 0
                then side_queue s2 (\<not> b) u = rest \<and> r \<notin> resting_slots s2 \<and>
                     r \<in> free_slots (pool s2)
                else side_queue s2 (\<not> b) u = r # rest \<and> r \<notin> free_slots (pool s2)))) \<and>
         (\<forall>ib b s1. matching s ib b s1 \<longrightarrow>
            (\<forall>i\<in>resting_slots s1.
               0 < qty (pool_arr (pool s1) i) \<and> i \<notin> free_slots (pool s1) \<and> i \<noteq> ib) \<and>
            ib \<notin> free_slots (pool s1) \<and>
            insert ib (free_slots (pool s1) \<union> resting_slots s1) = {..<MAX_ORDERS}) \<and>
         free_slots (pool s) \<union> resting_slots s = {..<MAX_ORDERS}"
proof -
  have a: "linked (pool_arr (pool s)) (head (level_at (book s) (sd, t))) (side_queue s sd t) \<and>
         (\<forall>i\<in>set (side_queue s sd t).
            0 < qty (pool_arr (pool s) i) \<and> i \<notin> free_slots (pool s))"
    using engine_inv_queue[OF run_engine_inv[OF assms(1)] assms(2), of sd] by blast
  have b: "\<forall>i pr qy b s'. processNewOrder s i pr qy b = Some (Inr s') \<longrightarrow>
            (\<exists>p ib s1.
               allocate (pool s) i pr qy b = Some (Inr (p, ib)) \<and>
               (if b then matchBuyOrder (s\<lparr>pool := p\<rparr>) ib
                else matchSellOrder (s\<lparr>pool := p\<rparr>) ib) = Some s1 \<and>
               (if 0 < qty (pool_arr (pool s1) ib)
                then ib \<in> resting_slots s' \<and> ib \<notin> free_slots (pool s')
                else ib \<notin> resting_slots s' \<and> ib \<in> free_slots (pool s')))"
    by (intro allI impI) (rule call_inbound[OF assms(1)])
  have c: "\<forall>ib b s1 r s2. matching s ib b s1 \<and> trade_step ib b s1 r s2 \<longrightarrow>
            (\<exists>u rest. u < NUM_TICKS \<and> side_queue s1 (\<not> b) u = r # rest \<and>
               0 < qty (pool_arr (pool s1) r) \<and>
               (if qty (pool_arr (pool s2) r) = 0
                then side_queue s2 (\<not> b) u = rest \<and> r \<notin> resting_slots s2 \<and>
                     r \<in> free_slots (pool s2)
                else side_queue s2 (\<not> b) u = r # rest \<and> r \<notin> free_slots (pool s2)))"
    by (intro allI impI, elim conjE) (rule trade_step_release[OF assms(1)])
  have d: "\<forall>ib b s1. matching s ib b s1 \<longrightarrow>
            (\<forall>i\<in>resting_slots s1.
               0 < qty (pool_arr (pool s1) i) \<and> i \<notin> free_slots (pool s1) \<and> i \<noteq> ib) \<and>
            ib \<notin> free_slots (pool s1) \<and>
            insert ib (free_slots (pool s1) \<union> resting_slots s1) = {..<MAX_ORDERS}"
    by (intro allI impI) (rule matching_positive[OF assms(1)])
  note e = run_arena_partition[OF assms(1)]
  show ?thesis
    by (intro conjI a[THEN conjunct1] a[THEN conjunct2] b c d e)
qed

theorem resting_orders_have_positive_qty_witness:
  "\<exists>s s1 s2 s3 s4 s'.
     run new_MatchingEngine [(1, 100, 3, False), (2, 101, 4, False), (3, 102, 5, False)] =
       Some (Inr s) \<and>
     (102 :: nat) < NUM_TICKS \<and> side_queue s False 102 = [2] \<and>
     0 < qty (pool_arr (pool s) 2) \<and> 2 \<notin> free_slots (pool s) \<and>
     free_slots (pool s) \<union> resting_slots s = {..<MAX_ORDERS} \<and>
     matching s 3 True s1 \<and> trade_step 3 True s1 0 s2 \<and>
     3 \<notin> free_slots (pool s1) \<and>
     qty (pool_arr (pool s2) 0) = 0 \<and> 0 \<in> free_slots (pool s2) \<and> 0 \<notin> resting_slots s2 \<and>
     matching s 3 True s3 \<and> trade_step 3 True s3 2 s4 \<and>
     qty (pool_arr (pool s4) 2) = 2 \<and> 2 \<notin> free_slots (pool s4) \<and>
     processNewOrder s 4 102 10 True = Some (Inr s') \<and>
     3 \<in> free_slots (pool s') \<and> 3 \<notin> resting_slots s'"
proof -
  from sweep_eval obtain s p s' s2 s3 s4 where
    r: "run new_MatchingEngine [(1, 100, 3, False), (2, 101, 4, False), (3, 102, 5, False)] =
          Some (Inr s)"
    and sq: "side_queue s False 102 = [2]"
    and al: "allocate (pool s) 4 102 10 True = Some (Inr (p, 3))"
    and pn: "processNewOrder s 4 102 10 True = Some (Inr s')"
    and e1: "0 < qty (pool_arr p 3)" "getBestAsk (ask_tracker (book s)) = Some 100"
      "price (pool_arr p 3) = 102" "head (asks (book s) 100) = Some 0"
      "executeTrade (s\<lparr>pool := p\<rparr>) 3 (Some 0) (False, 100) 100 False = Some s2"
    and z1: "qty (pool_arr (pool s2) 0) = 0"
    and e2: "0 < qty (pool_arr (pool s2) 3)" "getBestAsk (ask_tracker (book s2)) = Some 101"
      "price (pool_arr (pool s2) 3) = 102" "head (asks (book s2) 101) = Some 1"
      "executeTrade s2 3 (Some 1) (False, 101) 101 False = Some s3"
    and e3: "0 < qty (pool_arr (pool s3) 3)" "getBestAsk (ask_tracker (book s3)) = Some 102"
      "price (pool_arr (pool s3) 3) = 102" "head (asks (book s3) 102) = Some 2"
      "executeTrade s3 3 (Some 2) (False, 102) 102 False = Some s4"
    and z3: "qty (pool_arr (pool s4) 2) = 2" and z4: "qty (pool_arr (pool s4) 3) = 0"
    and lp: "matchBuyOrder (s\<lparr>pool := p\<rparr>) 3 = Some s4"
    by blast
  have t: "(102 :: nat) < NUM_TICKS" by (simp add: NUM_TICKS_eq)
  have m1: "matching s 3 True (s\<lparr>pool := p\<rparr>)" using al by (rule matching.enter)
  have t1: "trade_step 3 True (s\<lparr>pool := p\<rparr>) 0 s2"
    by (rule trade_step.buy[where best = 100]) (use e1 in \<open>simp_all add: MAX_PRICE_TICKS_def\<close>)
  have m2: "matching s 3 True s2" using m1 t1 by (rule matching.step)
  have t2: "trade_step 3 True s2 1 s3"
    by (rule trade_step.buy[where best = 101]) (use e2 in \<open>simp_all add: MAX_PRICE_TICKS_def\<close>)
  have m3: "matching s 3 True s3" using m2 t2 by (rule matching.step)
  have t3: "trade_step 3 True s3 2 s4"
    by (rule trade_step.buy[where best = 102]) (use e3 in \<open>simp_all add: MAX_PRICE_TICKS_def\<close>)
  note th = resting_orders_have_positive_qty[OF r t, of False]
  note th2 = th[THEN conjunct2, THEN conjunct1]
  note th3 = th[THEN conjunct2, THEN conjunct2, THEN conjunct1]
  note th4 = th[THEN conjunct2, THEN conjunct2, THEN conjunct2, THEN conjunct1]
  note th5 = th[THEN conjunct2, THEN conjunct2, THEN conjunct2, THEN conjunct2, THEN conjunct1]
  note th6 = th[THEN conjunct2, THEN conjunct2, THEN conjunct2, THEN conjunct2, THEN conjunct2]
  from th2 sq have a: "0 < qty (pool_arr (pool s) 2)" "2 \<notin> free_slots (pool s)" by simp_all
  from th3 pn obtain p' ib s1 where
    al': "allocate (pool s) 4 102 10 True = Some (Inr (p', ib))"
    and lp': "matchBuyOrder (s\<lparr>pool := p'\<rparr>) ib = Some s1"
    and c': "if 0 < qty (pool_arr (pool s1) ib)
             then ib \<in> resting_slots s' \<and> ib \<notin> free_slots (pool s')
             else ib \<notin> resting_slots s' \<and> ib \<in> free_slots (pool s')"
    by fastforce
  from al al' have "p' = p" "ib = 3" by simp_all
  with lp lp' have "s1 = s4" by simp
  with c' z4 \<open>ib = 3\<close> have f: "3 \<in> free_slots (pool s')" "3 \<notin> resting_slots s'" by simp_all
  from th5 m1 have b: "3 \<notin> free_slots (pool (s\<lparr>pool := p\<rparr>))" by blast
  from th4 m1 t1 z1 have c: "0 \<in> free_slots (pool s2)" "0 \<notin> resting_slots s2" by fastforce+
  have nz: "qty (pool_arr (pool s4) 2) \<noteq> 0" by (simp add: z3)
  from th4 m3 t3 nz have d: "2 \<notin> free_slots (pool s4)" by fastforce
  from r t sq a th6 m1 t1 b z1 c m3 t3 z3 d pn f show ?thesis by blast
qed

lemma exact_match_eval:
  "\<exists>s. run new_MatchingEngine [(1, 100, 5, False), (2, 100, 5, True)] = Some (Inr s) \<and>
       map trade_qty (trade_log s) = [5]"
  by (simp add: eval_defs)

text \<open>
  Claim C4 says that the quantity filled by all trades equals the quantity of all
  submitted orders minus the quantity resting in the book. A fill takes its quantity off
  two orders, the inbound and the resting one, so the claimed equation is off by a factor
  of two: after a sell of 5 and a buy of 5 at the same tick one trade of 5 is logged, 10
  were submitted, and nothing rests.
\<close>

theorem fills_not_submitted_minus_resting:
  "map_option (map_sum fst (\<lambda>s. filled (trade_log s) =
        submitted [(1, 100, 5, False), (2, 100, 5, True)] - resting_qty s))
     (run new_MatchingEngine [(1, 100, 5, False), (2, 100, 5, True)]) = Some (Inr False)"
proof -
  from exact_match_eval obtain s where
    r: "run new_MatchingEngine [(1, 100, 5, False), (2, 100, 5, True)] = Some (Inr s)"
    and l: "map trade_qty (trade_log s) = [5]" by auto
  have "filled (trade_log s) = sum_list (map unat (map trade_qty (trade_log s)))"
    by (simp add: filled_def comp_def)
  then have f: "filled (trade_log s) = 5" by (simp add: l)
  have sub: "submitted [(1, 100, 5, False), (2, 100, 5, True)] = 10" by (simp add: submitted_def)
  from run_conservation[OF r] f sub have "resting_qty s = 0" by simp
  with r f sub show ?thesis by simp
qed

text \<open>
  Claim C4, amended. After every run from the new engine, twice the quantity filled by
  the logged trades plus the quantity resting in the book equals the quantity of the
  submitted orders: each fill lowers the remaining quantity of the inbound and of the
  resting order by the same amount, and no quantity appears or disappears otherwise.
\<close>

theorem fills_twice_conserved:
  assumes "run new_MatchingEngine os = Some (Inr s)"
  shows "2 * filled (trade_log s) + resting_qty s = submitted os"
  using assms by (rule run_conservation)

theorem fills_twice_conserved_witness:
  "\<exists>s. run new_MatchingEngine scenario_C = Some (Inr s) \<and>
       filled (trade_log s) = 10 \<and> resting_qty s = 2 \<and> submitted scenario_C = 22 \<and>
       2 * filled (trade_log s) + resting_qty s = submitted scenario_C"
proof -
  from scenario_C_eval obtain s where
    r: "run new_MatchingEngine scenario_C = Some (Inr s)"
    and l: "map trade_qty (trade_log s) = [3, 4, 3]" by auto
  have "filled (trade_log s) = sum_list (map unat (map trade_qty (trade_log s)))"
    by (simp add: filled_def comp_def)
  then have f: "filled (trade_log s) = 10" by (simp add: l)
  have sub: "submitted scenario_C = 22" by (simp add: submitted_def scenario_C_def)
  from fills_twice_conserved[OF r] r f sub show ?thesis by auto
qed



section \<open>Properties of the header variant\<close>

lemma scan_bids_empty: "(\<forall>j<n. head (ls j) = None) \<Longrightarrow> scan_bids ls n = 0"
  by (induction n) auto

lemma sell_at_zero_cond: "matchSellOrder_cond sell_at_zero_state 0"
  by (simp add: matchSellOrder_cond_def sell_at_zero_state_def new_MatchingEngine_h_def
      new_OrderBook_h_def)

lemma sell_at_zero_body: "matchSellOrder_body sell_at_zero_state 0 = Some sell_at_zero_state"
  by (simp add: matchSellOrder_body_def sell_at_zero_state_def new_MatchingEngine_h_def
      new_OrderBook_h_def MAX_PRICE_TICKS_h_def new_PriceLevel_def updateBestBid_def scan_bids_empty)

lemma loop_fixed_point_diverges:
  assumes c: "matchSellOrder_cond s0 i0" and b: "matchSellOrder_body s0 i0 = Some s0"
  shows "matchSellOrder_h s0 i0 = None"
proof -
  have "(s, i) \<noteq> (s0, i0)" if "matchSellOrder_h s i = Some y" for s i y
    using that
  proof (rule matchSellOrder_h.raw_induct[where P = "\<lambda>s i y. (s, i) \<noteq> (s0, i0)", rotated])
    fix f :: "MatchingEngine_h \<Rightarrow> nat \<Rightarrow> MatchingEngine_h option" and s i y
    assume IH: "\<And>s i y. f s i = Some y \<Longrightarrow> (s, i) \<noteq> (s0, i0)"
      and st: "(if matchSellOrder_cond s i then
                  case matchSellOrder_body s i of None \<Rightarrow> None | Some s' \<Rightarrow> f s' i
                else Some s) = Some y"
    show "(s, i) \<noteq> (s0, i0)"
    proof
      assume e: "(s, i) = (s0, i0)"
      with st c b have "f s0 i0 = Some y" by simp
      from IH[OF this] show False by simp
    qed
  qed
  then show ?thesis by (cases "matchSellOrder_h s0 i0") auto
qed

text \<open>
  Claim C2 (every call with a price in range and a positive quantity runs to completion,
  also a sell at price 0 on an empty bid book). In the header variant the first call
  \<^verbatim>\<open>processNewOrder(1, 0, 5, false)\<close> on a new engine does not return. After \<^verbatim>\<open>allocate\<close>
  the loop condition of \<^verbatim>\<open>matchSellOrder\<close> holds (\<^verbatim>\<open>best_bid_\<close> is 0 and the price is 0), the
  level at tick 0 is empty, \<^verbatim>\<open>updateBestBid\<close> finds no bid and stores 0 again, and
  \<^verbatim>\<open>continue\<close> re-enters the loop in the very same state: one pass through the body maps
  the state to itself, so the loop has no result.
\<close>

theorem header_sell_at_zero_never_returns:
  "allocate (pool_h new_MatchingEngine_h) 1 0 5 False =
     Some (Inr (pool_h sell_at_zero_state, 0)) \<and>
   new_MatchingEngine_h\<lparr>pool_h := pool_h sell_at_zero_state\<rparr> = sell_at_zero_state \<and>
   matchSellOrder_cond sell_at_zero_state 0 \<and>
   matchSellOrder_body sell_at_zero_state 0 = Some sell_at_zero_state \<and>
   matchSellOrder_h sell_at_zero_state 0 = None \<and>
   processNewOrder_h new_MatchingEngine_h 1 0 5 False = None"
proof -
  have a: "allocate (pool_h new_MatchingEngine_h) 1 0 5 False =
     Some (Inr (pool_h sell_at_zero_state, 0))"
    by (simp add: allocate_def new_MatchingEngine_h_def new_OrderPool_def MAX_ORDERS_def
        sell_at_zero_state_def Let_def)
  have b: "new_MatchingEngine_h\<lparr>pool_h := pool_h sell_at_zero_state\<rparr> = sell_at_zero_state"
    by (simp add: sell_at_zero_state_def)
  have d: "matchSellOrder_h sell_at_zero_state 0 = None"
    by (rule loop_fixed_point_diverges[OF sell_at_zero_cond sell_at_zero_body])
  have "processNewOrder_h new_MatchingEngine_h 1 0 5 False = None"
    by (simp add: processNewOrder_h_def a b d)
  with a b d sell_at_zero_cond sell_at_zero_body show ?thesis by simp
qed

end
